theory Spec2Isabelle
  imports Main "HOL-Library.AList"
begin

section \<open>The template watcher: data model\<close>

text \<open>
  The package \<^verbatim>\<open>watcher\<close> caches parsed \<^verbatim>\<open>html/template\<close> bundles under
  caller-chosen keys, reparses an entry when one of its files (or of the base
  template's files) is newer than the entry, and merges the optional base template
  into every other entry. The model follows the latest revision of
  \<^verbatim>\<open>watcher.go\<close> in the sources (the one with \<^verbatim>\<open>DelimLeft\<close>/\<^verbatim>\<open>DelimRight\<close>,
  \<^verbatim>\<open>parseGlob\<close> and \<^verbatim>\<open>getBaseChangeTime\<close>).

  A \<^verbatim>\<open>time.Time\<close> is counted in nanoseconds from Go's zero time, so the zero
  timestamp is \<open>0\<close>, \<^verbatim>\<open>a.Before(b)\<close> is \<open>a < b\<close>, \<^verbatim>\<open>a.After(b)\<close> is \<open>b < a\<close>
  and \<^verbatim>\<open>t.Add(time.Nanosecond)\<close> is \<open>t + 1\<close>. Instants before the zero time are the
  negative numbers.
\<close>

type_synonym time = int

text \<open>
  A cache key is a Go \<^verbatim>\<open>interface{}\<close> value: its dynamic type together with its
  value (an integer here, as the keys of the tests are; nothing depends on what the
  values are). Two keys are the same map key when both agree. The sentinel
  \<^verbatim>\<open>const baseKey cacheKey = 0\<close> has the unexported type \<^verbatim>\<open>cacheKey\<close>, which code
  outside the package cannot name.
\<close>

datatype key = Key (dyn_type: string) (dyn_val: int)

definition baseKey :: key where
  "baseKey = Key ''watcher.cacheKey'' 0"

text \<open>
  The error values of the package, by the operation that produces them, and the one
  run-time panic the code can raise (\<^verbatim>\<open>filenames[0]\<close> on an empty slice). A merge
  error is a \<open>CloneError\<close> or an \<open>AddError\<close> coming out of \<^verbatim>\<open>mergeTemplate\<close>.
\<close>

datatype error =
    ParseError
  | BadPattern
  | NoMatchError
  | CloneError
  | AddError
  | NotFoundError
  | PanicIndexOutOfRange

definition is_panic :: "error \<Rightarrow> bool" where
  "is_panic err = (err = PanicIndexOutOfRange)"

text \<open>
  A template object of the engine: its name and its name space of named
  sub-templates (a Go map, kept as an association list whose order stands for the
  map's iteration order). Template objects live in a heap and are referred to by
  address, as the \<^verbatim>\<open>*template.Template\<close> pointers of the source are.
\<close>

type_synonym tree = string
type_synonym addr = nat

record tmpl =
  tname :: string
  tset :: "(string \<times> tree) list"

record watched =
  filenames :: "string list"
  template :: addr
  cached :: time

datatype logmsg = LogStat string | LogErr error

text \<open>
  What the package reads from outside: the file system (\<^verbatim>\<open>os.Stat\<close>,
  \<^verbatim>\<open>filepath.Glob\<close>), the templating engine (what \<^verbatim>\<open>ParseFiles\<close> makes of a file
  list under the current delimiters, whether it accepts a \<^verbatim>\<open>Clone\<close> or an
  \<^verbatim>\<open>AddParseTree\<close>, and which trees it regards as empty, \<^verbatim>\<open>parse.IsEmptyTree\<close>:
  nothing but white space and comments), and the clock (the \<open>n\<close>-th reading of
  \<^verbatim>\<open>time.Now()\<close>).
\<close>

record env =
  stat :: "string \<Rightarrow> time option"
  glob :: "string \<Rightarrow> error + string list"
  parse :: "string list \<Rightarrow> (string \<times> tree) list option"
  clone_ok :: "tmpl \<Rightarrow> bool"
  add_ok :: "tmpl \<Rightarrow> string \<Rightarrow> tree \<Rightarrow> bool"
  empty_tree :: "tree \<Rightarrow> bool"
  clock :: "nat \<Rightarrow> time"

text \<open>
  The state of the process: the \<^verbatim>\<open>cache\<close> map, the heap of template objects, the
  pending requests of \<^verbatim>\<open>setChan\<close>, what \<^verbatim>\<open>log.Println\<close> has printed, the file lists
  handed to the engine's \<^verbatim>\<open>ParseFiles\<close> so far, and the number of clock readings.
\<close>

record world =
  cache :: "key \<Rightarrow> watched option"
  heap :: "tmpl list"
  setChan :: "(key \<times> watched) list"
  logged :: "logmsg list"
  parses :: "string list list"
  ticks :: nat

section \<open>The engine and the clock\<close>

definition Now :: "env \<Rightarrow> world \<Rightarrow> time \<times> world" where
  "Now e s = (clock e (ticks s), s\<lparr>ticks := Suc (ticks s)\<rparr>)"

definition alloc :: "tmpl \<Rightarrow> world \<Rightarrow> addr \<times> world" where
  "alloc t s = (length (heap s), s\<lparr>heap := heap s @ [t]\<rparr>)"

text \<open>\<^verbatim>\<open>template.New(name)\<close>: a fresh template object with nothing parsed into it.\<close>

definition New :: "string \<Rightarrow> world \<Rightarrow> addr \<times> world" where
  "New name s = alloc \<lparr>tname = name, tset = []\<rparr> s"

text \<open>
  \<^verbatim>\<open>t.ParseFiles(filenames...)\<close>: the engine reads the files and either rejects them
  or fills the object's name space.
\<close>

definition ParseFiles :: "env \<Rightarrow> world \<Rightarrow> addr \<Rightarrow> string list \<Rightarrow> (error + unit) \<times> world" where
  "ParseFiles e s t fns =
     (let s1 = s\<lparr>parses := parses s @ [fns]\<rparr> in
      case parse e fns of
        None \<Rightarrow> (Inl ParseError, s1)
      | Some defs \<Rightarrow> (Inr (), s1\<lparr>heap := (heap s1)[t := (heap s1 ! t)\<lparr>tset := defs\<rparr>]\<rparr>))"

text \<open>\<^verbatim>\<open>t.Clone()\<close>: a new object with a copy of the name space, or an error.\<close>

definition Clone :: "env \<Rightarrow> world \<Rightarrow> addr \<Rightarrow> (error + addr) \<times> world" where
  "Clone e s t =
     (if clone_ok e (heap s ! t)
      then (case alloc (heap s ! t) s of (nt, s1) \<Rightarrow> (Inr nt, s1))
      else (Inl CloneError, s))"

text \<open>\<^verbatim>\<open>t.Templates()\<close>: the named sub-templates of the object's name space.\<close>

definition Templates :: "world \<Rightarrow> addr \<Rightarrow> (string \<times> tree) list" where
  "Templates s t = tset (heap s ! t)"

text \<open>
  The engine's \<^verbatim>\<open>associate\<close>, which installs a tree in a name space: a definition
  that exists is not replaced by an empty tree; otherwise the tree is stored under
  the name, replacing what was there. (Every entry of a name space has a tree here:
  a template that was created and never parsed has no entry.)
\<close>

definition associate :: "env \<Rightarrow> string \<Rightarrow> tree \<Rightarrow> (string \<times> tree) list \<Rightarrow> (string \<times> tree) list" where
  "associate e name tree al =
     (if map_of al name \<noteq> None \<and> empty_tree e tree then al
      else AList.update name tree al)"

text \<open>
  \<^verbatim>\<open>nt.AddParseTree(name, tree)\<close>: the engine either rejects the call or installs
  the tree under \<open>name\<close> in the object's name space.
\<close>

definition AddParseTree :: "env \<Rightarrow> world \<Rightarrow> addr \<Rightarrow> string \<Rightarrow> tree \<Rightarrow> (error + unit) \<times> world" where
  "AddParseTree e s nt name tree =
     (if add_ok e (heap s ! nt) name tree
      then (Inr (), s\<lparr>heap := (heap s)[nt := (heap s ! nt)\<lparr>tset := associate e name tree (tset (heap s ! nt))\<rparr>]\<rparr>)
      else (Inl AddError, s))"

section \<open>The staleness checker\<close>

text \<open>
  The loop of \<^verbatim>\<open>getChangeTime\<close>: \<open>changed\<close> is the running maximum, a file that
  cannot be read is logged and skipped.
\<close>

fun changeLoop :: "env \<Rightarrow> string list \<Rightarrow> time \<Rightarrow> world \<Rightarrow> time \<times> world" where
  "changeLoop e [] changed s = (changed, s)"
| "changeLoop e (f # fs) changed s =
     (case stat e f of
        None \<Rightarrow> changeLoop e fs changed (s\<lparr>logged := logged s @ [LogStat f]\<rparr>)
      | Some m \<Rightarrow> changeLoop e fs (if changed < m then m else changed) s)"

definition getChangeTime :: "env \<Rightarrow> world \<Rightarrow> string list \<Rightarrow> time \<times> world" where
  "getChangeTime e s fns = changeLoop e fns 0 s"

definition getBaseChangeTime :: "env \<Rightarrow> world \<Rightarrow> time \<times> world" where
  "getBaseChangeTime e s =
     (case cache s baseKey of
        None \<Rightarrow> (0, s)
      | Some base \<Rightarrow>
          (case getChangeTime e s (filenames base) of
             (changed, s1) \<Rightarrow>
               if changed < cached base then (cached base + 1, s1) else (changed, s1)))"

section \<open>Merging and parsing\<close>

text \<open>The \<^verbatim>\<open>for _, sub := range t.Templates()\<close> loop of \<^verbatim>\<open>mergeTemplate\<close>.\<close>

fun mergeLoop :: "env \<Rightarrow> world \<Rightarrow> addr \<Rightarrow> (string \<times> tree) list \<Rightarrow> (error + unit) \<times> world" where
  "mergeLoop e s nt [] = (Inr (), s)"
| "mergeLoop e s nt (sub # subs) =
     (case AddParseTree e s nt (fst sub) (snd sub) of
        (Inl err, s1) \<Rightarrow> (Inl err, s1)
      | (Inr u, s1) \<Rightarrow> mergeLoop e s1 nt subs)"

definition mergeTemplate :: "env \<Rightarrow> world \<Rightarrow> addr \<Rightarrow> addr \<Rightarrow> (error + addr) \<times> world" where
  "mergeTemplate e s base t =
     (case Clone e s base of
        (Inl err, s1) \<Rightarrow> (Inl err, s1)
      | (Inr nt, s1) \<Rightarrow>
          (case mergeLoop e s1 nt (Templates s1 t) of
             (Inl err, s2) \<Rightarrow> (Inl err, s2)
           | (Inr u, s2) \<Rightarrow> (Inr nt, s2)))"

definition parseGlob :: "env \<Rightarrow> string \<Rightarrow> error + string list" where
  "parseGlob e pattern =
     (case glob e pattern of
        Inl err \<Rightarrow> Inl err
      | Inr fns \<Rightarrow> if length fns = 0 then Inl NoMatchError else Inr fns)"

definition parseBaseFiles :: "env \<Rightarrow> world \<Rightarrow> string list \<Rightarrow> (error + watched) \<times> world" where
  "parseBaseFiles e s fns =
     (case fns of
        [] \<Rightarrow> (Inl PanicIndexOutOfRange, s)
      | f0 # rest \<Rightarrow>
          (case New f0 s of
             (t, s1) \<Rightarrow>
               (case ParseFiles e s1 t fns of
                  (Inl err, s2) \<Rightarrow> (Inl err, s2)
                | (Inr u, s2) \<Rightarrow>
                    (case Now e s2 of
                       (n, s3) \<Rightarrow> (Inr \<lparr>filenames = fns, template = t, cached = n\<rparr>, s3)))))"

section \<open>The lookup task, \<^verbatim>\<open>Get\<close> and \<^verbatim>\<open>parseFiles\<close>\<close>

text \<open>
  \<^verbatim>\<open>Get\<close> hands its request to the \<^verbatim>\<open>watcher\<close> loop, which starts the lookup task
  \<^verbatim>\<open>get\<close> and waits for its answer on the reply channel: \<open>Some t\<close> is the template
  sent before the channel is closed, \<open>None\<close> is the channel closed with nothing sent.
  The task reparses a stale entry with \<^verbatim>\<open>parseFiles\<close>, which itself asks \<^verbatim>\<open>Get\<close> for
  the base template, so the three functions are mutually recursive in the source as
  they are here; the recursion ends because the inner request is for \<open>baseKey\<close>,
  whose reparse is \<^verbatim>\<open>parseBaseFiles\<close>. A request is modelled as answered at once, on
  the state it finds; the Set requests it submits stay in \<open>setChan\<close> until the
  \<^verbatim>\<open>watcher\<close> loop applies them. An error of the reparse is logged and the reply
  channel is closed with nothing sent. (The reparse cannot panic on a stored entry:
  its file list is not empty, see \<open>wf_world\<close> below.)
\<close>

function get :: "env \<Rightarrow> world \<Rightarrow> key \<Rightarrow> addr option \<times> world"
  and Get :: "env \<Rightarrow> world \<Rightarrow> key \<Rightarrow> (error + addr) \<times> world"
  and parseFiles :: "env \<Rightarrow> world \<Rightarrow> string list \<Rightarrow> (error + watched) \<times> world"
where
  "get e s k =
     (case cache s k of
        None \<Rightarrow> (None, s)
      | Some w \<Rightarrow>
          (case getChangeTime e s (filenames w) of
             (changed, s1) \<Rightarrow>
               (case getBaseChangeTime e s1 of
                  (baseChanged, s2) \<Rightarrow>
                    if cached w < changed \<or> (k \<noteq> baseKey \<and> cached w < baseChanged)
                    then
                      (case (if k = baseKey then parseBaseFiles e s2 (filenames w)
                             else parseFiles e s2 (filenames w)) of
                         (Inl err, s3) \<Rightarrow> (None, s3\<lparr>logged := logged s3 @ [LogErr err]\<rparr>)
                       | (Inr w', s3) \<Rightarrow>
                           (Some (template w'), s3\<lparr>setChan := setChan s3 @ [(k, w')]\<rparr>))
                    else (Some (template w), s2))))"
| "Get e s k =
     (case get e s k of
        (None, s1) \<Rightarrow> (Inl NotFoundError, s1)
      | (Some t, s1) \<Rightarrow> Clone e s1 t)"
| "parseFiles e s fns =
     (case fns of
        [] \<Rightarrow> (Inl PanicIndexOutOfRange, s)
      | f0 # rest \<Rightarrow>
          (case New f0 s of
             (t, s1) \<Rightarrow>
               (case ParseFiles e s1 t fns of
                  (Inl err, s2) \<Rightarrow> (Inl err, s2)
                | (Inr u, s2) \<Rightarrow>
                    (case Get e s2 baseKey of
                       (Inr base, s3) \<Rightarrow>
                         (case mergeTemplate e s3 base t of
                            (Inl err, s4) \<Rightarrow> (Inl err, s4)
                          | (Inr nt, s4) \<Rightarrow>
                              (case Now e s4 of
                                 (n, s5) \<Rightarrow>
                                   (Inr \<lparr>filenames = fns, template = nt, cached = n\<rparr>, s5)))
                     | (Inl err, s3) \<Rightarrow>
                         (case Now e s3 of
                            (n, s5) \<Rightarrow>
                              (Inr \<lparr>filenames = fns, template = t, cached = n\<rparr>, s5))))))"
  by pat_completeness auto
termination
  by (relation "measure (\<lambda>x. case x of
         Inl (e, s, k) \<Rightarrow> (if k = baseKey then 0 else 3)
       | Inr (Inl (e, s, k)) \<Rightarrow> (if k = baseKey then 1 else 4)
       | Inr (Inr (e, s, fns)) \<Rightarrow> 2)") auto

section \<open>The public API and the mutation loop\<close>

text \<open>An \<^verbatim>\<open>error\<close> result is \<open>None\<close> for \<^verbatim>\<open>nil\<close> and \<open>Some err\<close> otherwise.\<close>

definition RegisterFiles :: "env \<Rightarrow> world \<Rightarrow> key \<Rightarrow> string list \<Rightarrow> error option \<times> world" where
  "RegisterFiles e s k fns =
     (case parseFiles e s fns of
        (Inl err, s1) \<Rightarrow> (Some err, s1)
      | (Inr w, s1) \<Rightarrow> (None, s1\<lparr>setChan := setChan s1 @ [(k, w)]\<rparr>))"

definition RegisterGlob :: "env \<Rightarrow> world \<Rightarrow> key \<Rightarrow> string \<Rightarrow> error option \<times> world" where
  "RegisterGlob e s k pattern =
     (case parseGlob e pattern of
        Inl err \<Rightarrow> (Some err, s)
      | Inr fns \<Rightarrow> RegisterFiles e s k fns)"

definition RegisterBaseFiles :: "env \<Rightarrow> world \<Rightarrow> string list \<Rightarrow> error option \<times> world" where
  "RegisterBaseFiles e s fns =
     (case parseBaseFiles e s fns of
        (Inl err, s1) \<Rightarrow> (Some err, s1)
      | (Inr w, s1) \<Rightarrow> (None, s1\<lparr>setChan := setChan s1 @ [(baseKey, w)]\<rparr>))"

definition RegisterBaseGlob :: "env \<Rightarrow> world \<Rightarrow> string \<Rightarrow> error option \<times> world" where
  "RegisterBaseGlob e s pattern =
     (case parseGlob e pattern of
        Inl err \<Rightarrow> (Some err, s)
      | Inr fns \<Rightarrow> RegisterBaseFiles e s fns)"

text \<open>\<^verbatim>\<open>set\<close> of the source: \<^verbatim>\<open>cache[key] = w\<close>.\<close>

definition set_cache :: "world \<Rightarrow> key \<Rightarrow> watched \<Rightarrow> world" where
  "set_cache s k w = s\<lparr>cache := (cache s)(k \<mapsto> w)\<rparr>"

text \<open>
  The Set side of the \<^verbatim>\<open>watcher\<close> loop: the pending requests of \<open>setChan\<close> are
  applied one by one, in the order they were sent.
\<close>

fun applySets :: "(key \<times> watched) list \<Rightarrow> world \<Rightarrow> world" where
  "applySets [] s = s"
| "applySets (r # rs) s = applySets rs (set_cache s (fst r) (snd r))"

definition watcher :: "world \<Rightarrow> world" where
  "watcher s = applySets (setChan s) (s\<lparr>setChan := []\<rparr>)"

text \<open>
  The three equations are unfolded by hand in the proofs below, one call at a time.
\<close>

declare get.simps [simp del] Get.simps [simp del] parseFiles.simps [simp del]

section \<open>Notions used to state the properties\<close>

text \<open>The modification times of the files of a list that \<^verbatim>\<open>os.Stat\<close> can read.\<close>

definition readable_times :: "env \<Rightarrow> string list \<Rightarrow> time list" where
  "readable_times e fns = List.map_filter (stat e) fns"

text \<open>What a caller of \<^verbatim>\<open>Get\<close> holds: the error, or the template object it was handed.\<close>

definition reply :: "(error + addr) \<times> world \<Rightarrow> error + tmpl" where
  "reply rs = (case fst rs of Inl err \<Rightarrow> Inl err | Inr a \<Rightarrow> Inr (heap (snd rs) ! a))"

text \<open>
  The three parts of the lookup task, named so that properties can speak of them:
  the state after the two staleness readings (only the log can differ from the state
  before), the condition under which the task reparses, and the reparse itself.
  Lemma \<open>get_Some\<close> below shows that \<^verbatim>\<open>get\<close> is made of exactly these.
\<close>

definition checked :: "env \<Rightarrow> world \<Rightarrow> watched \<Rightarrow> world" where
  "checked e s w = snd (getBaseChangeTime e (snd (getChangeTime e s (filenames w))))"

definition stale :: "env \<Rightarrow> world \<Rightarrow> key \<Rightarrow> watched \<Rightarrow> bool" where
  "stale e s k w \<longleftrightarrow>
     cached w < fst (getChangeTime e s (filenames w))
     \<or> (k \<noteq> baseKey \<and> cached w < fst (getBaseChangeTime e s))"

definition reparse :: "env \<Rightarrow> world \<Rightarrow> key \<Rightarrow> watched \<Rightarrow> (error + watched) \<times> world" where
  "reparse e s k w =
     (if k = baseKey then parseBaseFiles e (checked e s w) (filenames w)
      else parseFiles e (checked e s w) (filenames w))"

text \<open>
  How a state can differ from an earlier one after any of the package's functions
  has run: the \<^verbatim>\<open>cache\<close> map is the same (only the \<^verbatim>\<open>watcher\<close> loop writes it), the
  objects that existed are unchanged and new ones may have been allocated, Set
  requests for newly allocated templates may have been sent, and the log and the
  list of engine calls may be longer.
\<close>

definition grows :: "world \<Rightarrow> world \<Rightarrow> bool" where
  "grows s s' \<longleftrightarrow>
     cache s' = cache s
     \<and> length (heap s) \<le> length (heap s')
     \<and> take (length (heap s)) (heap s') = heap s
     \<and> (\<exists>q. setChan s' = setChan s @ q
            \<and> (\<forall>r \<in> set q. length (heap s) \<le> template (snd r)
                             \<and> template (snd r) < length (heap s')
                             \<and> filenames (snd r) \<noteq> []))
     \<and> (\<exists>p. parses s' = parses s @ p)
     \<and> (\<exists>l. logged s' = logged s @ l)"

text \<open>
  The states the process can be in: every stored or pending entry points to an
  allocated template object and has a file list that is not empty (an entry is only
  built after \<^verbatim>\<open>filenames[0]\<close> was read). The initial state is of this kind and every
  operation keeps it so (lemmas \<open>wf_init\<close>, \<open>wf_RegisterFiles\<close>,
  \<open>wf_RegisterBaseFiles\<close>, \<open>wf_Get\<close>, \<open>wf_watcher\<close>); in such a state the
  reparse inside \<^verbatim>\<open>get\<close> cannot panic.
\<close>

definition wf_world :: "world \<Rightarrow> bool" where
  "wf_world s \<longleftrightarrow>
     (\<forall>w \<in> ran (cache s). template w < length (heap s) \<and> filenames w \<noteq> [])
     \<and> (\<forall>r \<in> set (setChan s). template (snd r) < length (heap s) \<and> filenames (snd r) \<noteq> [])"

text \<open>
  A caller changing the template object it holds at address \<open>a\<close> into \<open>x\<close>
  (adding or redefining sub-templates, executing it, ...).
\<close>

definition poke :: "addr \<Rightarrow> tmpl \<Rightarrow> world \<Rightarrow> world" where
  "poke a x s = s\<lparr>heap := (heap s)[a := x]\<rparr>"

subsection \<open>A concrete run\<close>

text \<open>
  The files of the package's tests: \<^verbatim>\<open>base.html\<close> (the layout) and \<^verbatim>\<open>test.html\<close>
  (which defines \<^verbatim>\<open>content\<close>), on a clock that does not advance between readings
  and that reads the very instant \<^verbatim>\<open>base.html\<close> was last written.
\<close>

definition demo_env :: env where
  "demo_env =
     \<lparr>stat = (\<lambda>f. if f = ''base.html'' then Some 5 else if f = ''test.html'' then Some 3 else None),
      glob = (\<lambda>p. if p = ''*.html'' then Inr [''base.html'', ''test.html'']
                  else if p = ''['' then Inl BadPattern else Inr []),
      parse = (\<lambda>fns. if fns = [''base.html''] then Some [(''base.html'', ''Base {{template content}}'')]
                   else if fns = [''test.html''] then Some [(''test.html'', []), (''content'', ''Test'')]
                   else None),
      clone_ok = (\<lambda>t. True),
      add_ok = (\<lambda>t name tree. True),
      empty_tree = (\<lambda>tree. tree = []),
      clock = (\<lambda>n. 5)\<rparr>"

definition init_world :: world where
  "init_world = \<lparr>cache = Map.empty, heap = [], setChan = [], logged = [], parses = [], ticks = 0\<rparr>"

text \<open>The key of the tests, \<^verbatim>\<open>const filesKey key = 0\<close>, and a plain \<^verbatim>\<open>int\<close> zero.\<close>

definition filesKey :: key where
  "filesKey = Key ''watcher.key'' 0"


definition demo_entry :: watched where
  "demo_entry = \<lparr>filenames = [''base.html''], template = 0, cached = 5\<rparr>"

text \<open>The state once \<^verbatim>\<open>RegisterBaseFiles("base.html")\<close> has been applied.\<close>

definition demo_base_world :: world where
  "demo_base_world = watcher (snd (RegisterBaseFiles demo_env init_world [''base.html'']))"



text \<open>\<^verbatim>\<open>base.html\<close> touched at instant 9, after the base entry was cached.\<close>

definition demo_touched :: env where
  "demo_touched = demo_env\<lparr>stat := (stat demo_env)(''base.html'' := Some 9)\<rparr>"

text \<open>
  The two registration orders of the package's tests, each followed by \<^verbatim>\<open>Get\<close>; the
  \<^verbatim>\<open>watcher\<close> loop has applied every Set request before the next call.
\<close>

definition base_first :: "env \<Rightarrow> (error + addr) \<times> world" where
  "base_first e =
     (let s1 = watcher (snd (RegisterBaseFiles e init_world [''base.html'']));
          s2 = watcher (snd (RegisterFiles e s1 filesKey [''test.html'']))
      in Get e s2 filesKey)"

definition base_last :: "env \<Rightarrow> (error + addr) \<times> world" where
  "base_last e =
     (let s1 = watcher (snd (RegisterFiles e init_world filesKey [''test.html'']));
          s2 = watcher (snd (RegisterBaseFiles e s1 [''base.html'']))
      in Get e s2 filesKey)"

text \<open>The same files on a clock that reads instant 6, after \<^verbatim>\<open>base.html\<close> was written.\<close>

definition demo_later :: env where
  "demo_later = demo_env\<lparr>clock := (\<lambda>n. 6)\<rparr>"

text \<open>\<^verbatim>\<open>base.html\<close> touched and broken: the engine rejects every file list.\<close>

definition demo_broken :: env where
  "demo_broken = demo_touched\<lparr>parse := (\<lambda>fns. None)\<rparr>"

text \<open>The state once \<^verbatim>\<open>RegisterFiles(filesKey, "test.html")\<close> has been applied as well.\<close>

definition demo_dep_world :: world where
  "demo_dep_world = watcher (snd (RegisterFiles demo_env demo_base_world filesKey [''test.html'']))"

definition demo_dep_entry :: watched where
  "demo_dep_entry = \<lparr>filenames = [''test.html''], template = 3, cached = 5\<rparr>"

section \<open>The concrete run, evaluated\<close>

lemmas model_defs = RegisterFiles_def RegisterBaseFiles_def parseBaseFiles_def parseFiles.simps
  Get.simps get.simps getBaseChangeTime_def getChangeTime_def New_def alloc_def ParseFiles_def
  Now_def Clone_def mergeTemplate_def Templates_def AddParseTree_def associate_def watcher_def
  set_cache_def

lemma demo_stat [simp]:
  "stat demo_env ''base.html'' = Some 5" "stat demo_env ''test.html'' = Some 3"
  by (simp_all add: demo_env_def)

lemma demo_parse [simp]:
  "parse demo_env [''base.html''] = Some [(''base.html'', ''Base {{template content}}'')]"
  "parse demo_env [''test.html''] = Some [(''test.html'', []), (''content'', ''Test'')]"
  by (simp_all add: demo_env_def)

lemma demo_engine [simp]:
  "clone_ok demo_env t" "add_ok demo_env t name tree" "clock demo_env n = 5"
  "empty_tree demo_env tree = (tree = [])"
  by (simp_all add: demo_env_def)

lemma key_ne [simp]: "filesKey \<noteq> baseKey" "baseKey \<noteq> filesKey"
  by (simp_all add: filesKey_def baseKey_def)

lemma demo_base_world_eq:
  "demo_base_world =
     \<lparr>cache = [baseKey \<mapsto> demo_entry],
      heap = [\<lparr>tname = ''base.html'', tset = [(''base.html'', ''Base {{template content}}'')]\<rparr>],
      setChan = [], logged = [], parses = [[''base.html'']], ticks = 1\<rparr>"
  by (simp add: demo_base_world_def demo_entry_def init_world_def model_defs)

lemma Get_demo_base:
  "Get demo_env demo_base_world baseKey =
     (Inr 1, demo_base_world\<lparr>heap := heap demo_base_world @ [heap demo_base_world ! 0]\<rparr>)"
  by (simp add: demo_base_world_eq demo_entry_def model_defs)

lemma demo_broken_facts [simp]:
  "stat demo_broken ''base.html'' = Some 9" "parse demo_broken fns = None"
  by (simp_all add: demo_broken_def demo_touched_def)

lemma demo_touched_facts [simp]:
  "stat demo_touched ''base.html'' = Some 9" "parse demo_touched = parse demo_env"
  "clock demo_touched = clock demo_env"
  by (simp_all add: demo_touched_def)

lemma demo_dep_world_cache:
  "cache demo_dep_world baseKey = Some demo_entry" "cache demo_dep_world filesKey = Some demo_dep_entry"
  "parses demo_dep_world = [[''base.html''], [''test.html'']]"
  by (simp_all add: demo_dep_world_def demo_base_world_eq demo_entry_def demo_dep_entry_def model_defs)

lemma demo_later_facts [simp]:
  "stat demo_later = stat demo_env" "parse demo_later = parse demo_env"
  "clone_ok demo_later t" "add_ok demo_later t name tree" "clock demo_later n = 6"
  "empty_tree demo_later tree = (tree = [])"
  by (simp_all add: demo_later_def demo_env_def)

section \<open>The staleness checker: properties\<close>

lemma changeLoop_eq:
  "changeLoop e fns c s =
     (fold max (readable_times e fns) c,
      s\<lparr>logged := logged s @ map LogStat (filter (\<lambda>f. stat e f = None) fns)\<rparr>)"
proof (induction fns arbitrary: c s)
  case Nil
  show ?case by (simp add: readable_times_def List.map_filter_simps)
next
  case (Cons f fs)
  show ?case
  proof (cases "stat e f")
    case None
    then show ?thesis using Cons by (simp add: readable_times_def List.map_filter_simps)
  next
    case (Some m)
    then show ?thesis using Cons by (simp add: readable_times_def List.map_filter_simps max_def)
  qed
qed

lemma fold_max_Max: "fold max xs (c::int) = Max (set (c # xs))"
  by (rule Max.set_eq_fold [symmetric])

lemma getChangeTime_eq:
  "getChangeTime e s fns =
     (Max (set (0 # readable_times e fns)),
      s\<lparr>logged := logged s @ map LogStat (filter (\<lambda>f. stat e f = None) fns)\<rparr>)"
  by (simp only: getChangeTime_def changeLoop_eq fold_max_Max)

text \<open>
  C3. \<^verbatim>\<open>getChangeTime\<close> returns the largest of the zero timestamp and the
  modification times of the files it can read. So, when no readable file was
  modified before the zero time, it returns the maximum modification time over the
  readable files, and the zero timestamp when the list is empty or no file of it is
  readable. A file that cannot be read is logged and skipped: it contributes no
  timestamp, and nothing but the log changes.
\<close>

theorem getChangeTime_latest:
  "fst (getChangeTime e s fns) = Max (set (0 # readable_times e fns))
   \<and> ((\<forall>m \<in> set (readable_times e fns). 0 \<le> m) \<longrightarrow>
        fst (getChangeTime e s fns) =
          (if readable_times e fns = [] then 0 else Max (set (readable_times e fns))))
   \<and> snd (getChangeTime e s fns) =
        s\<lparr>logged := logged s @ map LogStat (filter (\<lambda>f. stat e f = None) fns)\<rparr>"
proof -
  have "Max (set (0 # readable_times e fns)) = Max (set (readable_times e fns))"
    if "readable_times e fns \<noteq> []" and "\<forall>m \<in> set (readable_times e fns). 0 \<le> m"
    using that by (simp add: max_def Max_ge_iff)
  then show ?thesis
    by (simp add: getChangeTime_eq del: set_simps) auto
qed

theorem getChangeTime_latest_witness:
  "readable_times demo_env [''missing.html'', ''base.html'', ''test.html''] = [5, 3]
   \<and> fst (getChangeTime demo_env init_world [''missing.html'', ''base.html'', ''test.html'']) = 5
   \<and> logged (snd (getChangeTime demo_env init_world [''missing.html'', ''base.html'', ''test.html'']))
        = [LogStat ''missing.html'']
   \<and> fst (getChangeTime demo_env init_world [''missing.html'']) = 0
   \<and> fst (getChangeTime demo_env init_world []) = 0"
proof -
  have rt: "readable_times demo_env [''missing.html'', ''base.html'', ''test.html''] = [5, 3]"
    by (simp add: readable_times_def demo_env_def List.map_filter_simps)
  have r1: "readable_times demo_env [''missing.html''] = []"
    by (simp add: readable_times_def demo_env_def List.map_filter_simps)
  have r0: "readable_times demo_env [] = []"
    by (simp add: readable_times_def List.map_filter_simps)
  have un: "stat demo_env ''missing.html'' = None" "stat demo_env ''base.html'' = Some 5"
    "stat demo_env ''test.html'' = Some 3"
    by (simp_all add: demo_env_def)
  have lg: "logged init_world = []"
    by (simp add: init_world_def)
  note a = getChangeTime_latest [of demo_env init_world "[''missing.html'', ''base.html'', ''test.html'']"]
  note b = getChangeTime_latest [of demo_env init_world "[''missing.html'']"]
  note c = getChangeTime_latest [of demo_env init_world "[]"]
  show ?thesis
    using a b c by (simp add: rt r1 r0 un lg)
qed

lemma getBaseChangeTime_value:
  "fst (getBaseChangeTime e s) =
     (case cache s baseKey of
        None \<Rightarrow> 0
      | Some base \<Rightarrow>
          if fst (getChangeTime e s (filenames base)) < cached base then cached base + 1
          else fst (getChangeTime e s (filenames base)))"
  by (simp add: getBaseChangeTime_def split: option.splits prod.splits)

text \<open>
  What \<^verbatim>\<open>getBaseChangeTime\<close> returns: the zero timestamp when there is no base
  entry; otherwise the entry's \<open>cached + 1\<close> when the entry was cached after the
  latest modification of its files, and that modification time when it was not. This
  is the later of the two, \<open>max changed (cached + 1)\<close>, in every case but one: the
  two instants being equal.
\<close>

theorem getBaseChangeTime_exact:
  "(cache s baseKey = None \<longrightarrow> fst (getBaseChangeTime e s) = 0)
   \<and> (\<forall>base. cache s baseKey = Some base \<longrightarrow>
         fst (getBaseChangeTime e s) =
           (if fst (getChangeTime e s (filenames base)) < cached base then cached base + 1
            else fst (getChangeTime e s (filenames base)))
         \<and> (fst (getChangeTime e s (filenames base)) \<noteq> cached base \<longrightarrow>
              fst (getBaseChangeTime e s)
                = max (fst (getChangeTime e s (filenames base))) (cached base + 1)))"
  by (simp add: getBaseChangeTime_value max_def)

theorem getBaseChangeTime_exact_witness:
  "cache init_world baseKey = None
   \<and> fst (getBaseChangeTime demo_env init_world) = 0
   \<and> cache demo_dep_world baseKey = Some demo_entry
   \<and> fst (getChangeTime demo_touched demo_dep_world (filenames demo_entry)) = 9
   \<and> cached demo_entry = 5
   \<and> fst (getBaseChangeTime demo_touched demo_dep_world) = 9"
proof -
  have n: "cache init_world baseKey = None"
    by (simp add: init_world_def)
  have m: "fst (getChangeTime demo_touched demo_dep_world (filenames demo_entry)) = 9"
    "cached demo_entry = 5"
    by (simp_all add: getChangeTime_def demo_entry_def)
  note a = getBaseChangeTime_exact [of init_world demo_env]
  note b = getBaseChangeTime_exact [of demo_dep_world demo_touched]
  have a1: "fst (getBaseChangeTime demo_env init_world) = 0"
    using a n by simp
  have b1: "fst (getBaseChangeTime demo_touched demo_dep_world) = 9"
    using b demo_dep_world_cache(1) m by simp
  show ?thesis
    by (intro conjI n a1 demo_dep_world_cache(1) m b1)
qed

text \<open>
  C2. With no base entry \<^verbatim>\<open>getBaseChangeTime\<close> returns the zero timestamp, and
  with one it returns the later of the files' modification time and the entry's
  \<open>cached + 1\<close>, except when the two instants coincide: the nudge is guarded by
  \<^verbatim>\<open>base.cached.After(changed)\<close>, which is false for equal instants. Here the base
  was cached at instant 5, its file was modified at instant 5, and the result is 5,
  not 6.
\<close>

theorem getBaseChangeTime_same_instant:
  "cache demo_base_world baseKey = Some \<lparr>filenames = [''base.html''], template = 0, cached = 5\<rparr>
   \<and> fst (getChangeTime demo_env demo_base_world [''base.html'']) = 5
   \<and> fst (getBaseChangeTime demo_env demo_base_world) = 5
   \<and> max (fst (getChangeTime demo_env demo_base_world [''base.html''])) (5 + 1) = 6"
  by (simp add: getBaseChangeTime_def getChangeTime_def watcher_def RegisterBaseFiles_def
      parseBaseFiles_def New_def alloc_def ParseFiles_def Now_def demo_env_def init_world_def
      set_cache_def demo_base_world_def Let_def)

section \<open>What the functions leave unchanged\<close>

lemma grows_refl: "grows s s"
  by (simp add: grows_def)

lemma grows_trans:
  assumes "grows s1 s2" and "grows s2 s3"
  shows "grows s1 s3"
proof -
  from assms(1) obtain q1 p1 l1 where
    a: "cache s2 = cache s1" "length (heap s1) \<le> length (heap s2)"
       "take (length (heap s1)) (heap s2) = heap s1"
       "setChan s2 = setChan s1 @ q1"
       "\<forall>r \<in> set q1. length (heap s1) \<le> template (snd r) \<and> template (snd r) < length (heap s2) \<and> filenames (snd r) \<noteq> []"
       "parses s2 = parses s1 @ p1" "logged s2 = logged s1 @ l1"
    unfolding grows_def by blast
  from assms(2) obtain q2 p2 l2 where
    b: "cache s3 = cache s2" "length (heap s2) \<le> length (heap s3)"
       "take (length (heap s2)) (heap s3) = heap s2"
       "setChan s3 = setChan s2 @ q2"
       "\<forall>r \<in> set q2. length (heap s2) \<le> template (snd r) \<and> template (snd r) < length (heap s3) \<and> filenames (snd r) \<noteq> []"
       "parses s3 = parses s2 @ p2" "logged s3 = logged s2 @ l2"
    unfolding grows_def by blast
  have tk: "take (length (heap s1)) (heap s3) = heap s1"
  proof -
    have "take (length (heap s1)) (heap s3) = take (length (heap s1)) (take (length (heap s2)) (heap s3))"
      using a(2) by (simp add: min_def)
    then show ?thesis using a(3) b(3) by simp
  qed
  have q: "setChan s3 = setChan s1 @ (q1 @ q2)"
    using a(4) b(4) by simp
  have qv: "\<forall>r \<in> set (q1 @ q2). length (heap s1) \<le> template (snd r) \<and> template (snd r) < length (heap s3) \<and> filenames (snd r) \<noteq> []"
    using a(2,5) b(2,5) by fastforce
  show ?thesis
    unfolding grows_def
    using a(1,2,6,7) b(1,2,6,7) tk q qv by (intro conjI exI[of _ "q1 @ q2"] exI[of _ "p1 @ p2"] exI[of _ "l1 @ l2"]) simp_all
qed

lemma grows_Now: "grows s (snd (Now e s))"
  by (simp add: grows_def Now_def)

lemma grows_getChangeTime: "grows s (snd (getChangeTime e s fns))"
  by (simp add: grows_def getChangeTime_eq)

lemma grows_getBaseChangeTime: "grows s (snd (getBaseChangeTime e s))"
  by (simp add: grows_def getBaseChangeTime_def getChangeTime_eq split: option.splits)

lemma grows_alloc: "grows s (snd (alloc t s))"
  by (simp add: grows_def alloc_def)

text \<open>Writing to an object allocated after \<open>s0\<close> keeps the heap of \<open>s0\<close> as it was.\<close>

lemma grows_heap_update:
  assumes "grows s0 s" and "length (heap s0) \<le> t"
  shows "grows s0 (s\<lparr>heap := (heap s)[t := v]\<rparr>)"
  using assms unfolding grows_def by (auto simp: take_update_cancel)

lemma grows_logged: "grows s0 s \<Longrightarrow> grows s0 (s\<lparr>logged := logged s @ l\<rparr>)"
  unfolding grows_def by auto

lemma grows_parses: "grows s0 s \<Longrightarrow> grows s0 (s\<lparr>parses := parses s @ p\<rparr>)"
  unfolding grows_def by auto

lemma grows_send:
  assumes "grows s0 s" and "length (heap s0) \<le> template w" and "template w < length (heap s)"
    and "filenames w \<noteq> []"
  shows "grows s0 (s\<lparr>setChan := setChan s @ [(k, w)]\<rparr>)"
proof -
  from assms(1) obtain q where
    q: "setChan s = setChan s0 @ q"
       "\<forall>r \<in> set q. length (heap s0) \<le> template (snd r) \<and> template (snd r) < length (heap s) \<and> filenames (snd r) \<noteq> []"
    unfolding grows_def by blast
  have "setChan s @ [(k, w)] = setChan s0 @ (q @ [(k, w)])"
    using q(1) by simp
  moreover have "\<forall>r \<in> set (q @ [(k, w)]). length (heap s0) \<le> template (snd r) \<and> template (snd r) < length (heap s) \<and> filenames (snd r) \<noteq> []"
    using q(2) assms(2,3,4) by auto
  ultimately show ?thesis
    using assms(1) unfolding grows_def by (auto intro!: exI[of _ "q @ [(k, w)]"])
qed

lemma grows_ParseFiles:
  assumes "grows s0 s" and "length (heap s0) \<le> t"
  shows "grows s0 (snd (ParseFiles e s t fns))"
proof (cases "parse e fns")
  case None
  then show ?thesis using grows_parses [OF assms(1)] by (simp add: ParseFiles_def Let_def)
next
  case (Some defs)
  have "grows s0 ((s\<lparr>parses := parses s @ [fns]\<rparr>)\<lparr>heap := (heap (s\<lparr>parses := parses s @ [fns]\<rparr>))[t := (heap s ! t)\<lparr>tset := defs\<rparr>]\<rparr>)"
    by (rule grows_heap_update [OF grows_parses [OF assms(1)] assms(2)])
  then show ?thesis using Some by (simp add: ParseFiles_def Let_def)
qed

lemma grows_AddParseTree:
  assumes "grows s0 s" and "length (heap s0) \<le> nt"
  shows "grows s0 (snd (AddParseTree e s nt name tree))"
  using assms grows_heap_update [OF assms] by (simp add: AddParseTree_def)

lemma grows_mergeLoop:
  assumes "grows s0 s" and "length (heap s0) \<le> nt"
  shows "grows s0 (snd (mergeLoop e s nt subs))"
  using assms
proof (induction subs arbitrary: s)
  case Nil
  then show ?case by simp
next
  case (Cons sub subs)
  have g: "grows s0 (snd (AddParseTree e s nt (fst sub) (snd sub)))"
    by (rule grows_AddParseTree [OF Cons.prems])
  show ?case
  proof (cases "AddParseTree e s nt (fst sub) (snd sub)")
    case (Pair r s1)
    then show ?thesis using g Cons.IH [of s1] Cons.prems(2) by (cases r) simp_all
  qed
qed

lemma Clone_result:
  "Clone e s t = (r, s') \<Longrightarrow>
     (r = Inl CloneError \<and> s' = s)
     \<or> (r = Inr (length (heap s)) \<and> s' = s\<lparr>heap := heap s @ [heap s ! t]\<rparr>)"
  by (auto simp: Clone_def alloc_def split: if_splits)

lemma grows_Clone: "grows s (snd (Clone e s t))"
  using grows_alloc [of s "heap s ! t"] by (auto simp: Clone_def grows_refl split: prod.splits)

lemma length_heap_AddParseTree:
  "length (heap (snd (AddParseTree e s nt name tree))) = length (heap s)"
  by (simp add: AddParseTree_def)

lemma length_heap_mergeLoop:
  "length (heap (snd (mergeLoop e s nt subs))) = length (heap s)"
proof (induction subs arbitrary: s)
  case Nil
  show ?case by simp
next
  case (Cons sub subs)
  show ?case
  proof (cases "AddParseTree e s nt (fst sub) (snd sub)")
    case (Pair r s1)
    then show ?thesis
      using Cons.IH [of s1] length_heap_AddParseTree [of e s nt "fst sub" "snd sub"]
      by (cases r) simp_all
  qed
qed

lemma grows_mergeTemplate:
  "grows s (snd (mergeTemplate e s base t))
   \<and> (\<forall>nt. fst (mergeTemplate e s base t) = Inr nt \<longrightarrow>
         length (heap s) \<le> nt \<and> nt < length (heap (snd (mergeTemplate e s base t))))"
proof (cases "Clone e s base")
  case (Pair r s1)
  from Clone_result [OF Pair] show ?thesis
  proof
    assume "r = Inl CloneError \<and> s1 = s"
    then show ?thesis using Pair by (simp add: mergeTemplate_def grows_refl)
  next
    assume a: "r = Inr (length (heap s)) \<and> s1 = s\<lparr>heap := heap s @ [heap s ! base]\<rparr>"
    have g1: "grows s s1" using grows_Clone [of s e base] Pair by simp
    have g2: "grows s (snd (mergeLoop e s1 (length (heap s)) (Templates s1 base')))" for base'
      by (rule grows_mergeLoop [OF g1]) simp
    have len: "length (heap s) < length (heap s1)" using a by simp
    have len2: "length (heap s1) \<le> length (heap (snd (mergeLoop e s1 (length (heap s)) (Templates s1 t))))"
      by (simp add: length_heap_mergeLoop)
    show ?thesis using Pair a g2 [of t] len len2
      by (auto simp: mergeTemplate_def split: prod.splits sum.splits)
  qed
qed


lemma getBaseChangeTime_logged:
  "fst (getBaseChangeTime e (s\<lparr>logged := l\<rparr>)) = fst (getBaseChangeTime e s)"
  by (simp add: getBaseChangeTime_def getChangeTime_eq split: option.splits)

lemma grows_checked: "grows s (checked e s w)"
  unfolding checked_def by (rule grows_trans [OF grows_getChangeTime grows_getBaseChangeTime])

lemma get_Some:
  assumes "cache s k = Some w"
  shows "get e s k =
     (if stale e s k w
      then (case reparse e s k w of
              (Inl err, s3) \<Rightarrow> (None, s3\<lparr>logged := logged s3 @ [LogErr err]\<rparr>)
            | (Inr w', s3) \<Rightarrow> (Some (template w'), s3\<lparr>setChan := setChan s3 @ [(k, w')]\<rparr>))
      else (Some (template w), checked e s w))"
proof -
  obtain changed s1 where c1: "getChangeTime e s (filenames w) = (changed, s1)"
    by fastforce
  obtain baseChanged s2 where c2: "getBaseChangeTime e s1 = (baseChanged, s2)"
    by fastforce
  have s1: "s1 = s\<lparr>logged := logged s @ map LogStat (filter (\<lambda>f. stat e f = None) (filenames w))\<rparr>"
    using c1 by (simp add: getChangeTime_eq)
  have "fst (getBaseChangeTime e s1) = fst (getBaseChangeTime e s)"
    unfolding s1 by (rule getBaseChangeTime_logged)
  then have bc: "baseChanged = fst (getBaseChangeTime e s)"
    using c2 by simp
  have ch: "checked e s w = s2"
    using c1 c2 by (simp add: checked_def)
  have st: "stale e s k w \<longleftrightarrow> cached w < changed \<or> (k \<noteq> baseKey \<and> cached w < baseChanged)"
    using c1 bc by (simp add: stale_def)
  show ?thesis
    by (subst get.simps) (simp add: assms c1 c2 st ch reparse_def)
qed

lemma grows_parseBaseFiles:
  "grows s (snd (parseBaseFiles e s fns))
   \<and> (case fst (parseBaseFiles e s fns) of
         Inl err \<Rightarrow> True
       | Inr w \<Rightarrow>
           length (heap s) \<le> template w
           \<and> template w < length (heap (snd (parseBaseFiles e s fns)))
           \<and> filenames w = fns \<and> fns \<noteq> [])"
proof (cases fns)
  case Nil
  then show ?thesis by (simp add: parseBaseFiles_def grows_refl)
next
  case (Cons f0 rest)
  define s1 where "s1 = s\<lparr>heap := heap s @ [\<lparr>tname = f0, tset = []\<rparr>]\<rparr>"
  have n: "New f0 s = (length (heap s), s1)"
    by (simp add: New_def alloc_def s1_def)
  have g1: "grows s s1"
    using grows_alloc [of s "\<lparr>tname = f0, tset = []\<rparr>"] by (simp add: alloc_def s1_def)
  obtain r s2 where p: "ParseFiles e s1 (length (heap s)) fns = (r, s2)"
    by fastforce
  have g2: "grows s s2"
    using grows_ParseFiles [OF g1, of "length (heap s)" e fns] p by simp
  have l2: "length (heap s) < length (heap s2)"
    using p by (auto simp: ParseFiles_def Let_def s1_def split: option.splits)
  have g3: "grows s (snd (Now e s2))"
    by (rule grows_trans [OF g2 grows_Now])
  have l3: "length (heap (snd (Now e s2))) = length (heap s2)"
    by (simp add: Now_def)
  show ?thesis
    using Cons n p g2 g3 l2 l3
    by (cases r) (auto simp: parseBaseFiles_def split: prod.splits)
qed

lemma grows_length: "grows s s' \<Longrightarrow> length (heap s) \<le> length (heap s')"
  by (simp add: grows_def)

lemma grows_cache: "grows s s' \<Longrightarrow> cache s' = cache s"
  by (simp add: grows_def)

text \<open>What \<^verbatim>\<open>get\<close> does with the outcome of the reparse.\<close>

lemma grows_get_step:
  assumes c: "cache s k = Some w"
    and r: "grows (checked e s w) (snd (reparse e s k w))"
    and fr: "case fst (reparse e s k w) of
               Inl err \<Rightarrow> True
             | Inr w' \<Rightarrow>
                 length (heap (checked e s w)) \<le> template w'
                 \<and> template w' < length (heap (snd (reparse e s k w)))
                 \<and> filenames w' = filenames w \<and> filenames w \<noteq> []"
  shows "grows s (snd (get e s k))
         \<and> (\<forall>t. fst (get e s k) = Some t \<longrightarrow>
               t = template w \<or> (length (heap s) \<le> t \<and> t < length (heap (snd (get e s k)))))"
proof (cases "stale e s k w")
  case False
  then show ?thesis by (simp add: get_Some [OF c] grows_checked)
next
  case True
  obtain res s3 where rp: "reparse e s k w = (res, s3)"
    by fastforce
  have g3: "grows s s3"
    using grows_trans [OF grows_checked r] rp by simp
  have l0: "length (heap s) \<le> length (heap (checked e s w))"
    by (rule grows_length [OF grows_checked])
  show ?thesis
  proof (cases res)
    case (Inl err)
    then show ?thesis
      using True rp grows_logged [OF g3] by (simp add: get_Some [OF c])
  next
    case (Inr w')
    have f: "length (heap s) \<le> template w'" "template w' < length (heap s3)" "filenames w' \<noteq> []"
      using fr rp Inr l0 by auto
    have "grows s (s3\<lparr>setChan := setChan s3 @ [(k, w')]\<rparr>)"
      by (rule grows_send [OF g3 f])
    then show ?thesis
      using True rp Inr f by (simp add: get_Some [OF c])
  qed
qed

lemma grows_Get_step:
  assumes g: "grows s (snd (get e s k))"
  shows "grows s (snd (Get e s k))
         \<and> (\<forall>a. fst (Get e s k) = Inr a \<longrightarrow>
               length (heap s) \<le> a \<and> a < length (heap (snd (Get e s k))))"
proof (cases "get e s k")
  case (Pair r s1)
  have g1: "grows s s1" using g Pair by simp
  show ?thesis
  proof (cases r)
    case None
    then show ?thesis using Pair g1 by (simp add: Get.simps)
  next
    case (Some t)
    obtain r2 s2 where cl: "Clone e s1 t = (r2, s2)" by fastforce
    have g2: "grows s s2"
      using grows_trans [OF g1 grows_Clone [of s1 e t]] cl by simp
    from Clone_result [OF cl] show ?thesis
      using Pair Some cl g2 grows_length [OF g1] by (auto simp: Get.simps)
  qed
qed

lemma grows_get_Get_parseFiles:
  "grows s (snd (get e s k))
   \<and> (\<forall>t. fst (get e s k) = Some t \<longrightarrow>
         (\<exists>w. cache s k = Some w \<and> t = template w)
         \<or> (length (heap s) \<le> t \<and> t < length (heap (snd (get e s k)))))"
  "grows s' (snd (Get e' s' k'))
   \<and> (\<forall>a. fst (Get e' s' k') = Inr a \<longrightarrow>
         length (heap s') \<le> a \<and> a < length (heap (snd (Get e' s' k'))))"
  "grows s'' (snd (parseFiles e'' s'' fns))
   \<and> (case fst (parseFiles e'' s'' fns) of
         Inl err \<Rightarrow> True
       | Inr w \<Rightarrow>
           length (heap s'') \<le> template w
           \<and> template w < length (heap (snd (parseFiles e'' s'' fns)))
           \<and> filenames w = fns \<and> fns \<noteq> [])"
proof (induction e s k and e' s' k' and e'' s'' fns rule: get_Get_parseFiles.induct)
  case (1 e s k)
  show ?case
  proof (cases "cache s k")
    case None
    then show ?thesis by (simp add: get.simps grows_refl)
  next
    case (Some w)
    have *: "grows (checked e s w) (snd (reparse e s k w))
             \<and> (case fst (reparse e s k w) of
                   Inl err \<Rightarrow> True
                 | Inr w' \<Rightarrow>
                     length (heap (checked e s w)) \<le> template w'
                     \<and> template w' < length (heap (snd (reparse e s k w)))
                     \<and> filenames w' = filenames w \<and> filenames w \<noteq> [])"
      if st: "stale e s k w"
    proof (cases "k = baseKey")
      case True
      then have rp: "reparse e s k w = parseBaseFiles e (checked e s w) (filenames w)"
        by (simp add: reparse_def)
      show ?thesis
        unfolding rp by (rule grows_parseBaseFiles)
    next
      case False
      have c1: "(fst (getChangeTime e s (filenames w)), snd (getChangeTime e s (filenames w)))
                  = getChangeTime e s (filenames w)"
        by simp
      have c2: "(fst (getBaseChangeTime e (snd (getChangeTime e s (filenames w)))), checked e s w)
                  = getBaseChangeTime e (snd (getChangeTime e s (filenames w)))"
        by (simp add: checked_def)
      have bc: "fst (getBaseChangeTime e (snd (getChangeTime e s (filenames w))))
                  = fst (getBaseChangeTime e s)"
        by (simp add: getChangeTime_eq getBaseChangeTime_logged)
      have cond: "cached w < fst (getChangeTime e s (filenames w))
                  \<or> k \<noteq> baseKey \<and> cached w < fst (getBaseChangeTime e (snd (getChangeTime e s (filenames w))))"
        using st by (simp add: stale_def bc)
      have rp: "reparse e s k w = parseFiles e (checked e s w) (filenames w)"
        using False by (simp add: reparse_def)
      show ?thesis
        unfolding rp by (rule "1.IH" [OF Some c1 c2 cond False])
    qed
    show ?thesis
    proof (cases "stale e s k w")
      case True
      from * [OF True] have "grows (checked e s w) (snd (reparse e s k w))"
        and "case fst (reparse e s k w) of
               Inl err \<Rightarrow> True
             | Inr w' \<Rightarrow>
                 length (heap (checked e s w)) \<le> template w'
                 \<and> template w' < length (heap (snd (reparse e s k w)))
                 \<and> filenames w' = filenames w \<and> filenames w \<noteq> []"
        by (rule conjunct1, rule conjunct2)
      from grows_get_step [OF Some this] show ?thesis
        using Some by auto
    next
      case False
      then show ?thesis using Some by (simp add: get_Some [OF Some] grows_checked)
    qed
  qed
next
  case (2 e s k)
  then show ?case using grows_Get_step [of s e k] by blast
next
  case (3 e s fns)
  show ?case
  proof (cases fns)
    case Nil
    then show ?thesis by (simp add: parseFiles.simps grows_refl)
  next
    case (Cons f0 rest)
    define s1 where "s1 = s\<lparr>heap := heap s @ [\<lparr>tname = f0, tset = []\<rparr>]\<rparr>"
    have n: "New f0 s = (length (heap s), s1)"
      by (simp add: New_def alloc_def s1_def)
    have g1: "grows s s1"
      using grows_alloc [of s "\<lparr>tname = f0, tset = []\<rparr>"] by (simp add: alloc_def s1_def)
    obtain r s2 where p: "ParseFiles e s1 (length (heap s)) fns = (r, s2)"
      by fastforce
    have g2: "grows s s2"
      using grows_ParseFiles [OF g1, of "length (heap s)" e fns] p by simp
    have l2: "length (heap s) < length (heap s2)"
      using p by (auto simp: ParseFiles_def Let_def s1_def split: option.splits)
    show ?thesis
    proof (cases r)
      case (Inl err)
      then show ?thesis using Cons n p g2 by (simp add: parseFiles.simps)
    next
      case (Inr u)
      obtain rb s3 where gb: "Get e s2 baseKey = (rb, s3)"
        by fastforce
      from "3.IH" [OF Cons n [symmetric] p [symmetric] Inr]
      have ih: "grows s2 s3" "\<And>a. rb = Inr a \<Longrightarrow> length (heap s2) \<le> a \<and> a < length (heap s3)"
        using gb by auto
      have g3: "grows s s3" by (rule grows_trans [OF g2 ih(1)])
      have l3: "length (heap s) < length (heap s3)"
        using l2 grows_length [OF ih(1)] by simp
      show ?thesis
      proof (cases rb)
        case (Inl err)
        have "grows s (snd (Now e s3))" by (rule grows_trans [OF g3 grows_Now])
        then show ?thesis
          using Cons n p Inr gb Inl l3 by (simp add: parseFiles.simps Now_def)
      next
        case (Inr base)
        obtain rm s4 where m: "mergeTemplate e s3 base (length (heap s)) = (rm, s4)"
          by fastforce
        have gm: "grows s3 s4" "\<And>nt. rm = Inr nt \<Longrightarrow> length (heap s3) \<le> nt \<and> nt < length (heap s4)"
          using grows_mergeTemplate [of s3 e base "length (heap s)"] m by auto
        have g4: "grows s s4" by (rule grows_trans [OF g3 gm(1)])
        have "grows s (snd (Now e s4))" by (rule grows_trans [OF g4 grows_Now])
        then show ?thesis
          using Cons n p \<open>r = Inr u\<close> gb Inr m g4 gm(2) l3
          by (cases rm) (auto simp: parseFiles.simps Now_def)
      qed
    qed
  qed
qed

section \<open>Merging: properties\<close>

lemma map_of_associate:
  "map_of (associate e name tree al) n =
     (if n = name \<and> \<not> (map_of al name \<noteq> None \<and> empty_tree e tree) then Some tree
      else map_of al n)"
  by (simp add: associate_def update_conv')

text \<open>
  What the loop leaves in the name space: for a name the added list defines, its
  tree, unless that tree is empty and the name was defined before; for every other
  name, what was there.
\<close>

lemma map_of_fold_associate:
  "distinct (map fst subs) \<Longrightarrow>
     map_of (fold (\<lambda>sub. associate e (fst sub) (snd sub)) subs al) n =
       (case map_of subs n of
          None \<Rightarrow> map_of al n
        | Some tr \<Rightarrow> if map_of al n \<noteq> None \<and> empty_tree e tr then map_of al n else Some tr)"
proof (induction subs arbitrary: al)
  case Nil
  show ?case by simp
next
  case (Cons sub subs)
  have d: "distinct (map fst subs)"
    using Cons.prems by simp
  have none: "map_of subs (fst sub) = None"
    using Cons.prems by (simp add: map_of_eq_None_iff)
  note ih = Cons.IH [OF d, of "associate e (fst sub) (snd sub) al"]
  show ?case
  proof (cases "n = fst sub")
    case True
    have m1: "map_of (associate e (fst sub) (snd sub) al) (fst sub) =
                (if map_of al (fst sub) \<noteq> None \<and> empty_tree e (snd sub) then map_of al (fst sub)
                 else Some (snd sub))"
      by (simp add: map_of_associate)
    show ?thesis
      using ih [unfolded m1] none True by (simp add: m1)
  next
    case False
    have m1: "map_of (associate e (fst sub) (snd sub) al) n = map_of al n"
      using False by (simp add: map_of_associate)
    show ?thesis
      using ih [unfolded m1] False by simp
  qed
qed

lemma mergeLoop_Inl: "mergeLoop e s nt subs = (Inl err, s') \<Longrightarrow> err = AddError"
proof (induction subs arbitrary: s)
  case Nil
  then show ?case by simp
next
  case (Cons sub subs)
  then show ?case
    by (auto simp: AddParseTree_def split: if_splits)
qed

lemma mergeLoop_Inr:
  assumes "nt < length (heap s)" and "mergeLoop e s nt subs = (Inr u, s')"
  shows "s' = s\<lparr>heap := (heap s)[nt := (heap s ! nt)\<lparr>tset :=
                 fold (\<lambda>sub. associate e (fst sub) (snd sub)) subs (tset (heap s ! nt))\<rparr>]\<rparr>"
  using assms
proof (induction subs arbitrary: s)
  case Nil
  then show ?case by simp
next
  case (Cons sub subs)
  define s1 where "s1 = s\<lparr>heap := (heap s)[nt := (heap s ! nt)\<lparr>tset :=
      associate e (fst sub) (snd sub) (tset (heap s ! nt))\<rparr>]\<rparr>"
  have ok: "add_ok e (heap s ! nt) (fst sub) (snd sub)"
    using Cons.prems(2) by (auto simp: AddParseTree_def split: if_splits)
  then have a: "AddParseTree e s nt (fst sub) (snd sub) = (Inr (), s1)"
    by (simp add: AddParseTree_def s1_def)
  have m: "mergeLoop e s1 nt subs = (Inr u, s')"
    using Cons.prems(2) a by simp
  have l: "nt < length (heap s1)"
    using Cons.prems(1) by (simp add: s1_def)
  show ?case
    using Cons.IH [OF l m] Cons.prems(1) by (simp add: s1_def)
qed

lemma mergeLoop_total:
  assumes "\<forall>tm n tr. add_ok e tm n tr"
  shows "\<not> isl (fst (mergeLoop e s nt subs))"
proof (induction subs arbitrary: s)
  case Nil
  show ?case by simp
next
  case (Cons sub subs)
  show ?case
    using assms Cons.IH by (simp add: AddParseTree_def)
qed

lemma mergeTemplate_Inr:
  assumes "base < length (heap s)" and "t < length (heap s)"
    and "distinct (map fst (tset (heap s ! t)))"
    and "mergeTemplate e s base t = (Inr nt, s')"
  shows "map_of (tset (heap s' ! nt)) n =
           (case map_of (tset (heap s ! t)) n of
              None \<Rightarrow> map_of (tset (heap s ! base)) n
            | Some tr \<Rightarrow>
                if map_of (tset (heap s ! base)) n \<noteq> None \<and> empty_tree e tr
                then map_of (tset (heap s ! base)) n
                else Some tr)"
proof -
  define s1 where "s1 = s\<lparr>heap := heap s @ [heap s ! base]\<rparr>"
  let ?nt = "length (heap s)"
  have ok: "clone_ok e (heap s ! base)"
    using assms(4) by (auto simp: mergeTemplate_def Clone_def split: if_splits)
  have c: "Clone e s base = (Inr ?nt, s1)"
    using ok by (simp add: Clone_def alloc_def s1_def)
  have ts: "Templates s1 t = tset (heap s ! t)"
    using assms(2) by (simp add: Templates_def s1_def nth_append)
  have m: "nt = ?nt \<and> (\<exists>u. mergeLoop e s1 ?nt (tset (heap s ! t)) = (Inr u, s'))"
    using assms(4) c ts by (auto simp: mergeTemplate_def split: prod.splits sum.splits)
  then obtain u where mu: "mergeLoop e s1 ?nt (tset (heap s ! t)) = (Inr u, s')" and nt: "nt = ?nt"
    by blast
  have l: "?nt < length (heap s1)" by (simp add: s1_def)
  note s2 = mergeLoop_Inr [OF l mu]
  have h1: "heap s1 ! ?nt = heap s ! base"
    by (simp add: s1_def)
  have cell: "heap s' ! ?nt = (heap s ! base)\<lparr>tset :=
      fold (\<lambda>sub. associate e (fst sub) (snd sub)) (tset (heap s ! t)) (tset (heap s ! base))\<rparr>"
    using l by (simp add: s2 h1)
  show ?thesis
    unfolding nt by (simp add: cell map_of_fold_associate [OF assms(3)])
qed

lemma mergeTemplate_total:
  assumes "clone_ok e (heap s ! base)" and "\<forall>tm n tr. add_ok e tm n tr"
  shows "\<not> isl (fst (mergeTemplate e s base t))"
proof -
  obtain r s2 where m: "mergeLoop e (s\<lparr>heap := heap s @ [heap s ! base]\<rparr>) (length (heap s))
      (Templates (s\<lparr>heap := heap s @ [heap s ! base]\<rparr>) t) = (r, s2)"
    by fastforce
  from mergeLoop_total [OF assms(2), of "s\<lparr>heap := heap s @ [heap s ! base]\<rparr>" "length (heap s)"
      "Templates (s\<lparr>heap := heap s @ [heap s ! base]\<rparr>) t"]
  show ?thesis
    using assms(1) m by (cases r) (simp_all add: mergeTemplate_def Clone_def alloc_def)
qed




section \<open>Well-formed states\<close>

lemma wf_init: "wf_world init_world"
  by (simp add: wf_world_def init_world_def)

lemma wf_grows:
  assumes "wf_world s" and "grows s s'"
  shows "wf_world s'"
proof -
  from assms(2) obtain q where
    g: "cache s' = cache s" "length (heap s) \<le> length (heap s')" "setChan s' = setChan s @ q"
       "\<forall>r \<in> set q. length (heap s) \<le> template (snd r) \<and> template (snd r) < length (heap s')
                      \<and> filenames (snd r) \<noteq> []"
    unfolding grows_def by blast
  show ?thesis
    unfolding wf_world_def
  proof (intro conjI ballI)
    fix w assume "w \<in> ran (cache s')"
    then have "w \<in> ran (cache s)" using g(1) by simp
    then have "template w < length (heap s) \<and> filenames w \<noteq> []"
      using assms(1) unfolding wf_world_def by blast
    then show "template w < length (heap s')" "filenames w \<noteq> []"
      using g(2) by auto
  next
    fix r assume "r \<in> set (setChan s')"
    then have "r \<in> set (setChan s) \<or> r \<in> set q" using g(3) by auto
    then have "template (snd r) < length (heap s') \<and> filenames (snd r) \<noteq> []"
    proof
      assume "r \<in> set (setChan s)"
      then have "template (snd r) < length (heap s) \<and> filenames (snd r) \<noteq> []"
        using assms(1) unfolding wf_world_def by blast
      then show ?thesis using g(2) by auto
    next
      assume "r \<in> set q"
      then show ?thesis using g(4) by blast
    qed
    then show "template (snd r) < length (heap s')" "filenames (snd r) \<noteq> []"
      by auto
  qed
qed

lemma ran_upd_subset: "ran (m(k \<mapsto> v)) \<subseteq> insert v (ran m)"
  by (auto simp: ran_def)

lemma heap_applySets: "heap (applySets rs s) = heap s"
  by (induction rs arbitrary: s) (simp_all add: set_cache_def)

lemma setChan_applySets: "setChan (applySets rs s) = setChan s"
  by (induction rs arbitrary: s) (simp_all add: set_cache_def)

lemma ran_applySets: "ran (cache (applySets rs s)) \<subseteq> ran (cache s) \<union> snd ` set rs"
proof (induction rs arbitrary: s)
  case Nil
  show ?case by simp
next
  case (Cons r rs)
  have "ran (cache (set_cache s (fst r) (snd r))) \<subseteq> insert (snd r) (ran (cache s))"
    unfolding set_cache_def using ran_upd_subset [of "cache s" "fst r" "snd r"] by simp
  then show ?case
    using Cons.IH [of "set_cache s (fst r) (snd r)"] by auto
qed

lemma ran_watcher: "ran (cache (watcher s)) \<subseteq> ran (cache s) \<union> snd ` set (setChan s)"
  unfolding watcher_def using ran_applySets [of "setChan s" "s\<lparr>setChan := []\<rparr>"] by simp

lemma heap_watcher: "heap (watcher s) = heap s"
  by (simp add: watcher_def heap_applySets)

lemma setChan_watcher: "setChan (watcher s) = []"
  by (simp add: watcher_def setChan_applySets)

lemma wf_watcher:
  assumes "wf_world s"
  shows "wf_world (watcher s)"
  unfolding wf_world_def
proof (intro conjI ballI)
  fix w assume "w \<in> ran (cache (watcher s))"
  then have "w \<in> ran (cache s) \<or> w \<in> snd ` set (setChan s)"
    using ran_watcher [of s] by blast
  then have "template w < length (heap s) \<and> filenames w \<noteq> []"
    using assms unfolding wf_world_def by blast
  then show "template w < length (heap (watcher s))" "filenames w \<noteq> []"
    by (simp_all add: heap_watcher)
next
  fix r assume "r \<in> set (setChan (watcher s))"
  then show "template (snd r) < length (heap (watcher s))" "filenames (snd r) \<noteq> []"
    by (simp_all add: setChan_watcher)
qed

text \<open>Every operation of the API keeps the state well formed.\<close>

lemma wf_Get: "wf_world s \<Longrightarrow> wf_world (snd (Get e s k))"
  using grows_get_Get_parseFiles(2) [of s e k] wf_grows by blast

lemma wf_RegisterFiles:
  assumes "wf_world s"
  shows "wf_world (snd (RegisterFiles e s k fns))"
proof (cases "parseFiles e s fns")
  case (Pair r s1)
  note g = grows_get_Get_parseFiles(3) [of s e fns]
  have g1: "grows s s1" using g Pair by simp
  show ?thesis
  proof (cases r)
    case (Inl err)
    then show ?thesis using Pair wf_grows [OF assms g1] by (simp add: RegisterFiles_def)
  next
    case (Inr w)
    have "grows s (s1\<lparr>setChan := setChan s1 @ [(k, w)]\<rparr>)"
      using g Pair Inr by (intro grows_send [OF g1]) simp_all
    then show ?thesis using Pair Inr wf_grows [OF assms] by (simp add: RegisterFiles_def)
  qed
qed

lemma wf_RegisterBaseFiles:
  assumes "wf_world s"
  shows "wf_world (snd (RegisterBaseFiles e s fns))"
proof (cases "parseBaseFiles e s fns")
  case (Pair r s1)
  note g = grows_parseBaseFiles [of s e fns]
  have g1: "grows s s1" using g Pair by simp
  show ?thesis
  proof (cases r)
    case (Inl err)
    then show ?thesis using Pair wf_grows [OF assms g1] by (simp add: RegisterBaseFiles_def)
  next
    case (Inr w)
    have "grows s (s1\<lparr>setChan := setChan s1 @ [(baseKey, w)]\<rparr>)"
      using g Pair Inr by (intro grows_send [OF g1]) simp_all
    then show ?thesis using Pair Inr wf_grows [OF assms] by (simp add: RegisterBaseFiles_def)
  qed
qed

section \<open>A caller's write to one object\<close>

lemma poke_fields [simp]:
  "cache (poke a x s) = cache s" "setChan (poke a x s) = setChan s"
  "logged (poke a x s) = logged s" "parses (poke a x s) = parses s"
  "ticks (poke a x s) = ticks s" "heap (poke a x s) = (heap s)[a := x]"
  by (simp_all add: poke_def)

lemma poke_Now: "Now e (poke a x s) = apsnd (poke a x) (Now e s)"
  by (simp add: Now_def poke_def)

lemma poke_getChangeTime:
  "getChangeTime e (poke a x s) fns = apsnd (poke a x) (getChangeTime e s fns)"
  by (simp add: getChangeTime_eq poke_def)

lemma poke_getBaseChangeTime:
  "getBaseChangeTime e (poke a x s) = apsnd (poke a x) (getBaseChangeTime e s)"
  by (simp add: getBaseChangeTime_def poke_getChangeTime split: option.splits prod.splits)

lemma poke_checked: "checked e (poke a x s) w = poke a x (checked e s w)"
  by (simp add: checked_def poke_getChangeTime poke_getBaseChangeTime)

lemma poke_stale: "stale e (poke a x s) k w = stale e s k w"
  by (simp add: stale_def poke_getChangeTime poke_getBaseChangeTime)

lemma poke_New:
  "a < length (heap s) \<Longrightarrow> New f (poke a x s) = apsnd (poke a x) (New f s)"
  by (simp add: New_def alloc_def poke_def list_update_append1)

lemma poke_ParseFiles:
  "t \<noteq> a \<Longrightarrow> ParseFiles e (poke a x s) t fns = apsnd (poke a x) (ParseFiles e s t fns)"
  by (simp add: ParseFiles_def poke_def Let_def list_update_swap split: option.splits)

lemma poke_Clone:
  "a < length (heap s) \<Longrightarrow> t \<noteq> a \<Longrightarrow> Clone e (poke a x s) t = apsnd (poke a x) (Clone e s t)"
  by (simp add: Clone_def alloc_def poke_def list_update_append1)

lemma poke_Templates: "t \<noteq> a \<Longrightarrow> Templates (poke a x s) t = Templates s t"
  by (simp add: Templates_def)

lemma poke_AddParseTree:
  "nt \<noteq> a \<Longrightarrow>
     AddParseTree e (poke a x s) nt name tree = apsnd (poke a x) (AddParseTree e s nt name tree)"
  by (simp add: AddParseTree_def poke_def list_update_swap)

lemma poke_mergeLoop:
  "nt \<noteq> a \<Longrightarrow> mergeLoop e (poke a x s) nt subs = apsnd (poke a x) (mergeLoop e s nt subs)"
proof (induction subs arbitrary: s)
  case Nil
  show ?case by simp
next
  case (Cons sub subs)
  show ?case
  proof (cases "AddParseTree e s nt (fst sub) (snd sub)")
    case (Pair r s1)
    then show ?thesis
      using Cons.IH [OF Cons.prems, of s1] poke_AddParseTree [OF Cons.prems, of e x s "fst sub" "snd sub"]
      by (cases r) simp_all
  qed
qed

lemma poke_mergeTemplate:
  assumes "a < length (heap s)" and "base \<noteq> a" and "t \<noteq> a"
  shows "mergeTemplate e (poke a x s) base t = apsnd (poke a x) (mergeTemplate e s base t)"
proof (cases "Clone e s base")
  case (Pair r s1)
  have c: "Clone e (poke a x s) base = (r, poke a x s1)"
    using poke_Clone [OF assms(1,2), of e x] Pair by simp
  from Clone_result [OF Pair] show ?thesis
  proof
    assume "r = Inl CloneError \<and> s1 = s"
    then show ?thesis using Pair c by (simp add: mergeTemplate_def)
  next
    assume r: "r = Inr (length (heap s)) \<and> s1 = s\<lparr>heap := heap s @ [heap s ! base]\<rparr>"
    have ne: "length (heap s) \<noteq> a" using assms(1) by simp
    have m: "mergeLoop e (poke a x s1) (length (heap s)) (Templates (poke a x s1) t)
               = apsnd (poke a x) (mergeLoop e s1 (length (heap s)) (Templates s1 t))"
      by (simp add: poke_mergeLoop [OF ne] poke_Templates [OF assms(3)])
    show ?thesis
      using Pair c r m by (simp add: mergeTemplate_def split: prod.splits sum.splits)
  qed
qed

lemma poke_parseBaseFiles:
  assumes "a < length (heap s)"
  shows "parseBaseFiles e (poke a x s) fns = apsnd (poke a x) (parseBaseFiles e s fns)"
proof (cases fns)
  case Nil
  then show ?thesis by (simp add: parseBaseFiles_def)
next
  case (Cons f0 rest)
  obtain t s1 where n: "New f0 s = (t, s1)" by fastforce
  have t: "t = length (heap s)" using n by (simp add: New_def alloc_def)
  have n': "New f0 (poke a x s) = (t, poke a x s1)"
    using poke_New [OF assms, of f0 x] n by simp
  have ne: "t \<noteq> a" using t assms by simp
  obtain r s2 where p: "ParseFiles e s1 t fns = (r, s2)" by fastforce
  have p': "ParseFiles e (poke a x s1) t fns = (r, poke a x s2)"
    using poke_ParseFiles [OF ne, of e x s1 fns] p by simp
  show ?thesis
    using Cons n n' p p' by (cases r) (simp_all add: parseBaseFiles_def poke_Now split: prod.splits)
qed

lemma poke_logged_update: "poke a x (s\<lparr>logged := l\<rparr>) = (poke a x s)\<lparr>logged := l\<rparr>"
  by (simp add: poke_def)

lemma poke_setChan_update: "poke a x (s\<lparr>setChan := q\<rparr>) = (poke a x s)\<lparr>setChan := q\<rparr>"
  by (simp add: poke_def)

lemma poke_get_step:
  assumes c: "cache s k = Some w"
    and r: "reparse e (poke a x s) k w = apsnd (poke a x) (reparse e s k w)"
  shows "get e (poke a x s) k = apsnd (poke a x) (get e s k)"
proof -
  have c': "cache (poke a x s) k = Some w" using c by simp
  obtain res s3 where rp: "reparse e s k w = (res, s3)" by fastforce
  have rp': "reparse e (poke a x s) k w = (res, poke a x s3)" using r rp by simp
  show ?thesis
    by (cases res)
      (simp_all add: get_Some [OF c] get_Some [OF c'] poke_stale poke_checked rp rp'
        poke_logged_update poke_setChan_update)
qed

lemma not_cached:
  "a \<notin> template ` ran (cache s) \<Longrightarrow> cache s k = Some w \<Longrightarrow> template w \<noteq> a"
  by (auto simp: ran_def)

lemma poke_get_Get_parseFiles:
  "a < length (heap s) \<longrightarrow> a \<notin> template ` ran (cache s) \<longrightarrow>
     get e (poke a x s) k = apsnd (poke a x) (get e s k)"
  "a < length (heap s') \<longrightarrow> a \<notin> template ` ran (cache s') \<longrightarrow>
     Get e' (poke a x s') k' = apsnd (poke a x) (Get e' s' k')"
  "a < length (heap s'') \<longrightarrow> a \<notin> template ` ran (cache s'') \<longrightarrow>
     parseFiles e'' (poke a x s'') fns = apsnd (poke a x) (parseFiles e'' s'' fns)"
proof (induction e s k and e' s' k' and e'' s'' fns rule: get_Get_parseFiles.induct)
  case (1 e s k)
  show ?case
  proof (intro impI)
    assume lt: "a < length (heap s)" and nc: "a \<notin> template ` ran (cache s)"
    show "get e (poke a x s) k = apsnd (poke a x) (get e s k)"
    proof (cases "cache s k")
      case None
      then show ?thesis by (simp add: get.simps)
    next
      case (Some w)
      have lt': "a < length (heap (checked e s w))"
        using lt grows_length [OF grows_checked, of s e w] by simp
      have nc': "a \<notin> template ` ran (cache (checked e s w))"
        using nc grows_cache [OF grows_checked, of e s w] by simp
      have rp: "reparse e (poke a x s) k w = apsnd (poke a x) (reparse e s k w)"
        if st: "stale e s k w"
      proof (cases "k = baseKey")
        case True
        then show ?thesis
          by (simp add: reparse_def poke_checked poke_parseBaseFiles [OF lt'])
      next
        case False
        have c1: "(fst (getChangeTime e s (filenames w)), snd (getChangeTime e s (filenames w)))
                    = getChangeTime e s (filenames w)"
          by simp
        have c2: "(fst (getBaseChangeTime e (snd (getChangeTime e s (filenames w)))), checked e s w)
                    = getBaseChangeTime e (snd (getChangeTime e s (filenames w)))"
          by (simp add: checked_def)
        have bc: "fst (getBaseChangeTime e (snd (getChangeTime e s (filenames w))))
                    = fst (getBaseChangeTime e s)"
          by (simp add: getChangeTime_eq getBaseChangeTime_logged)
        have cond: "cached w < fst (getChangeTime e s (filenames w))
                    \<or> k \<noteq> baseKey \<and> cached w < fst (getBaseChangeTime e (snd (getChangeTime e s (filenames w))))"
          using st by (simp add: stale_def bc)
        from "1.IH" [OF Some c1 c2 cond False] lt' nc' show ?thesis
          using False by (simp add: reparse_def poke_checked)
      qed
      show ?thesis
      proof (cases "stale e s k w")
        case True
        show ?thesis by (rule poke_get_step [OF Some rp [OF True]])
      next
        case False
        have c': "cache (poke a x s) k = Some w" using Some by simp
        show ?thesis
          using False by (simp add: get_Some [OF Some] get_Some [OF c'] poke_stale poke_checked)
      qed
    qed
  qed
next
  case (2 e s k)
  show ?case
  proof (intro impI)
    assume lt: "a < length (heap s)" and nc: "a \<notin> template ` ran (cache s)"
    obtain r s1 where g: "get e s k = (r, s1)" by fastforce
    have g': "get e (poke a x s) k = (r, poke a x s1)"
      using 2 lt nc g by simp
    note gr = grows_get_Get_parseFiles(1) [of s e k]
    have lt1: "a < length (heap s1)"
      using gr g lt grows_length [of s s1] by simp
    show "Get e (poke a x s) k = apsnd (poke a x) (Get e s k)"
    proof (cases r)
      case None
      then show ?thesis using g g' by (simp add: Get.simps)
    next
      case (Some t)
      have "t \<noteq> a"
        using gr g Some lt not_cached [OF nc] by auto
      then show ?thesis
        using g g' Some poke_Clone [OF lt1, of t e x] by (simp add: Get.simps)
    qed
  qed
next
  case (3 e s fns)
  show ?case
  proof (intro impI)
    assume lt: "a < length (heap s)" and nc: "a \<notin> template ` ran (cache s)"
    show "parseFiles e (poke a x s) fns = apsnd (poke a x) (parseFiles e s fns)"
    proof (cases fns)
      case Nil
      then show ?thesis by (simp add: parseFiles.simps)
    next
      case (Cons f0 rest)
      obtain t s1 where n: "New f0 s = (t, s1)" by fastforce
      have t: "t = length (heap s)" and s1: "s1 = s\<lparr>heap := heap s @ [\<lparr>tname = f0, tset = []\<rparr>]\<rparr>"
        using n by (auto simp: New_def alloc_def)
      have n': "New f0 (poke a x s) = (t, poke a x s1)"
        using poke_New [OF lt, of f0 x] n by simp
      have ne: "t \<noteq> a" using t lt by simp
      obtain r s2 where p: "ParseFiles e s1 t fns = (r, s2)" by fastforce
      have p': "ParseFiles e (poke a x s1) t fns = (r, poke a x s2)"
        using poke_ParseFiles [OF ne, of e x s1 fns] p by simp
      have c2: "cache s2 = cache s" and l2: "length (heap s) < length (heap s2)"
        using p s1 by (auto simp: ParseFiles_def Let_def split: option.splits)
      show ?thesis
      proof (cases r)
        case (Inl err)
        then show ?thesis using Cons n n' p p' by (simp add: parseFiles.simps)
      next
        case (Inr u)
        obtain rb s3 where gb: "Get e s2 baseKey = (rb, s3)" by fastforce
        have lt2: "a < length (heap s2)" using lt l2 by simp
        have nc2: "a \<notin> template ` ran (cache s2)" using nc c2 by simp
        from "3.IH" [OF Cons n [symmetric] p [symmetric] Inr] lt2 nc2
        have gb': "Get e (poke a x s2) baseKey = (rb, poke a x s3)"
          using gb by simp
        note gr = grows_get_Get_parseFiles(2) [of s2 e baseKey]
        have lt3: "a < length (heap s3)"
          using gr gb lt2 grows_length [of s2 s3] by simp
        show ?thesis
        proof (cases rb)
          case (Inl err)
          then show ?thesis
            using Cons n n' p p' Inr gb gb' by (simp add: parseFiles.simps Now_def poke_def)
        next
          case base: (Inr base)
          have bne: "base \<noteq> a"
            using gr gb base lt2 by auto
          obtain rm s4 where m: "mergeTemplate e s3 base t = (rm, s4)" by fastforce
          have m': "mergeTemplate e (poke a x s3) base t = (rm, poke a x s4)"
            using poke_mergeTemplate [OF lt3 bne ne, of e x] m by simp
          show ?thesis
            using Cons n n' p p' Inr gb gb' base m m'
            by (cases rm) (simp_all add: parseFiles.simps Now_def poke_def)
        qed
      qed
    qed
  qed
qed

lemma poke_set_cache: "set_cache (poke a x s) k w = poke a x (set_cache s k w)"
  by (simp add: set_cache_def poke_def)

lemma poke_applySets: "applySets rs (poke a x s) = poke a x (applySets rs s)"
  by (induction rs arbitrary: s) (simp_all add: poke_set_cache)

lemma poke_watcher: "watcher (poke a x s) = poke a x (watcher s)"
proof -
  have e1: "watcher (poke a x s) = applySets (setChan s) ((poke a x s)\<lparr>setChan := []\<rparr>)"
    by (simp add: watcher_def)
  have e2: "(poke a x s)\<lparr>setChan := []\<rparr> = poke a x (s\<lparr>setChan := []\<rparr>)"
    by (simp add: poke_def)
  show ?thesis
    unfolding e1 e2 poke_applySets by (simp add: watcher_def)
qed

lemma poke_Get:
  assumes "a < length (heap s)" and "a \<notin> template ` ran (cache s)"
  shows "Get e (poke a x s) k = apsnd (poke a x) (Get e s k)"
  using poke_get_Get_parseFiles(2) [of a s e x k] assms by simp

lemma poke_reply:
  assumes "a < length (heap s)" and "a \<notin> template ` ran (cache s)"
  shows "reply (Get e (poke a x s) k) = reply (Get e s k)"
proof (cases "Get e s k")
  case (Pair r s1)
  note gr = grows_get_Get_parseFiles(2) [of s e k]
  show ?thesis
  proof (cases r)
    case (Inl err)
    then show ?thesis using Pair by (simp add: poke_Get [OF assms] reply_def)
  next
    case (Inr a')
    have "a' \<noteq> a" using gr Pair Inr assms(1) by auto
    then show ?thesis using Pair Inr by (simp add: poke_Get [OF assms] reply_def)
  qed
qed

lemma Get_Inr_fresh:
  assumes wf: "wf_world s" and g: "Get e s k = (Inr a, s')"
  shows "a < length (heap s')" and "a \<notin> template ` ran (cache s')"
    and "a \<notin> template ` snd ` set (setChan s')" and "wf_world s'"
proof -
  obtain r s1 where g1: "get e s k = (r, s1)" by fastforce
  obtain t where r: "r = Some t"
    using g g1 by (cases r) (simp_all add: Get.simps)
  have cl: "Clone e s1 t = (Inr a, s')"
    using g g1 r by (simp add: Get.simps)
  from Clone_result [OF cl] have a: "a = length (heap s1)"
    and s': "s' = s1\<lparr>heap := heap s1 @ [heap s1 ! t]\<rparr>"
    by auto
  have "grows s s1" using grows_get_Get_parseFiles(1) [of s e k] g1 by simp
  then have wf1: "wf_world s1" by (rule wf_grows [OF wf])
  show "a < length (heap s')" using a s' by simp
  show "a \<notin> template ` ran (cache s')"
    using wf1 a s' unfolding wf_world_def by auto
  show "a \<notin> template ` snd ` set (setChan s')"
    using wf1 a s' unfolding wf_world_def by auto
  show "wf_world s'"
    using wf_Get [OF wf, of e k] g by simp
qed

lemma Get_Inr_copy:
  assumes wf: "wf_world s" and g: "Get e s k = (Inr a, s')"
  shows "\<exists>t. fst (get e s k) = Some t \<and> t \<noteq> a \<and> heap s' ! a = heap s' ! t"
proof -
  obtain r s1 where g1: "get e s k = (r, s1)" by fastforce
  obtain t where r: "r = Some t"
    using g g1 by (cases r) (simp_all add: Get.simps)
  have cl: "Clone e s1 t = (Inr a, s')"
    using g g1 r by (simp add: Get.simps)
  from Clone_result [OF cl] have a: "a = length (heap s1)"
    and s': "s' = s1\<lparr>heap := heap s1 @ [heap s1 ! t]\<rparr>"
    by auto
  note gr = grows_get_Get_parseFiles(1) [of s e k]
  have gs: "grows s s1" using gr g1 by simp
  have "t < length (heap s1)"
  proof (cases "\<exists>w. cache s k = Some w \<and> t = template w")
    case True
    then obtain w where w: "cache s k = Some w" "t = template w" by blast
    then have "w \<in> ran (cache s)" by (auto simp: ran_def)
    then have "template w < length (heap s)" using wf unfolding wf_world_def by blast
    then show ?thesis using w(2) grows_length [OF gs] by simp
  next
    case False
    then show ?thesis using gr g1 r by auto
  qed
  then show ?thesis
    using g1 r a s' by (simp add: nth_append)
qed

text \<open>
  C6. The template \<^verbatim>\<open>Get\<close> returns is a fresh clone of the template the lookup
  task sent (the cached one, or the newly built one after a reparse): it has the same
  contents, and no stored or pending entry points to it. So whatever the caller then writes into it, every cached object is
  as it was, and every later \<^verbatim>\<open>Get\<close>, for any key and any state of the files, before
  or after the \<^verbatim>\<open>watcher\<close> loop has applied the pending Set requests, computes the
  same result and hands out a template with the same contents.
\<close>

theorem Get_copy_isolation:
  assumes "wf_world s" and "Get e s k = (Inr a, s')"
  shows "(\<exists>t. fst (get e s k) = Some t \<and> t \<noteq> a \<and> heap s' ! a = heap s' ! t)
         \<and> a \<notin> template ` ran (cache s')
         \<and> (\<forall>w \<in> ran (cache s'). heap (poke a x s') ! template w = heap s' ! template w)
         \<and> Get e' (poke a x s') k' = apsnd (poke a x) (Get e' s' k')
         \<and> reply (Get e' (poke a x s') k') = reply (Get e' s' k')
         \<and> reply (Get e' (watcher (poke a x s')) k') = reply (Get e' (watcher s') k')"
proof -
  note f = Get_Inr_fresh [OF assms]
  have cp: "\<exists>t. fst (get e s k) = Some t \<and> t \<noteq> a \<and> heap s' ! a = heap s' ! t"
    by (rule Get_Inr_copy [OF assms])
  have c: "\<forall>w \<in> ran (cache s'). heap (poke a x s') ! template w = heap s' ! template w"
  proof
    fix w assume "w \<in> ran (cache s')"
    then have "template w \<noteq> a" using f(2) by blast
    then show "heap (poke a x s') ! template w = heap s' ! template w" by simp
  qed
  have lw: "a < length (heap (watcher s'))"
    using f(1) by (simp add: heap_watcher)
  have nw: "a \<notin> template ` ran (cache (watcher s'))"
    using ran_watcher [of s'] f(2,3) by auto
  have "reply (Get e' (watcher (poke a x s')) k') = reply (Get e' (watcher s') k')"
    unfolding poke_watcher by (rule poke_reply [OF lw nw])
  then show ?thesis
    using cp f(2) c poke_Get [OF f(1,2)] poke_reply [OF f(1,2)] by simp
qed

theorem Get_copy_isolation_witness:
  "wf_world demo_base_world
   \<and> fst (Get demo_env demo_base_world baseKey) = Inr 1
   \<and> reply (Get demo_env (poke 1 \<lparr>tname = ''mine'', tset = []\<rparr>
                 (snd (Get demo_env demo_base_world baseKey))) baseKey)
       = reply (Get demo_env (snd (Get demo_env demo_base_world baseKey)) baseKey)
   \<and> reply (Get demo_env (snd (Get demo_env demo_base_world baseKey)) baseKey)
       = Inr \<lparr>tname = ''base.html'', tset = [(''base.html'', ''Base {{template content}}'')]\<rparr>"
proof -
  have wf: "wf_world demo_base_world"
    unfolding demo_base_world_def by (intro wf_watcher wf_RegisterBaseFiles wf_init)
  have g: "Get demo_env demo_base_world baseKey = (Inr 1, snd (Get demo_env demo_base_world baseKey))"
    by (simp add: Get_demo_base)
  note th = Get_copy_isolation [OF wf g, of "\<lparr>tname = ''mine'', tset = []\<rparr>" demo_env baseKey]
  from th have d: "reply (Get demo_env (poke 1 \<lparr>tname = ''mine'', tset = []\<rparr>
                 (snd (Get demo_env demo_base_world baseKey))) baseKey)
       = reply (Get demo_env (snd (Get demo_env demo_base_world baseKey)) baseKey)"
    by (elim conjE)
  have r: "reply (Get demo_env (snd (Get demo_env demo_base_world baseKey)) baseKey)
             = Inr \<lparr>tname = ''base.html'', tset = [(''base.html'', ''Base {{template content}}'')]\<rparr>"
    by (simp add: Get_demo_base demo_base_world_eq demo_entry_def model_defs reply_def)
  have f: "fst (Get demo_env demo_base_world baseKey) = Inr 1"
    by (simp add: Get_demo_base)
  show ?thesis
    by (intro conjI wf f d r)
qed

section \<open>The lookup task: properties\<close>

lemma parses_checked: "parses (checked e s w) = parses s"
  by (simp add: checked_def getChangeTime_eq getBaseChangeTime_def split: option.splits)

lemma setChan_checked: "setChan (checked e s w) = setChan s"
  by (simp add: checked_def getChangeTime_eq getBaseChangeTime_def split: option.splits)

lemma grows_parsesD: "grows s s' \<Longrightarrow> \<exists>p. parses s' = parses s @ p"
  by (simp add: grows_def)

lemma parses_parseBaseFiles:
  "fns \<noteq> [] \<Longrightarrow> parses (snd (parseBaseFiles e s fns)) = parses s @ [fns]"
  by (cases fns)
    (auto simp: parseBaseFiles_def New_def alloc_def ParseFiles_def Now_def Let_def
      split: option.splits)

lemma parses_parseFiles:
  assumes "fns \<noteq> []"
  shows "\<exists>rest. parses (snd (parseFiles e s fns)) = parses s @ fns # rest"
proof -
  obtain f0 tl where fns: "fns = f0 # tl"
    using assms by (cases fns) auto
  define s1 where "s1 = s\<lparr>heap := heap s @ [\<lparr>tname = f0, tset = []\<rparr>]\<rparr>"
  have n: "New f0 s = (length (heap s), s1)"
    by (simp add: New_def alloc_def s1_def)
  obtain r s2 where p: "ParseFiles e s1 (length (heap s)) fns = (r, s2)"
    by fastforce
  have p2: "parses s2 = parses s @ [fns]"
    using p by (auto simp: ParseFiles_def Let_def s1_def split: option.splits)
  show ?thesis
  proof (cases r)
    case (Inl err)
    then show ?thesis using fns n p p2 by (simp add: parseFiles.simps)
  next
    case (Inr u)
    obtain rb s3 where gb: "Get e s2 baseKey = (rb, s3)" by fastforce
    obtain p3 where p3: "parses s3 = parses s2 @ p3"
      using grows_parsesD [of s2 s3] grows_get_Get_parseFiles(2) [of s2 e baseKey] gb by auto
    show ?thesis
    proof (cases rb)
      case (Inl err)
      then show ?thesis
        using fns n p Inr gb p2 p3 by (simp add: parseFiles.simps Now_def)
    next
      case base: (Inr base)
      obtain rm s4 where m: "mergeTemplate e s3 base (length (heap s)) = (rm, s4)" by fastforce
      obtain p4 where p4: "parses s4 = parses s3 @ p4"
        using grows_parsesD [of s3 s4] grows_mergeTemplate [of s3 e base "length (heap s)"] m by auto
      show ?thesis
        using fns n p Inr gb base m p2 p3 p4 by (cases rm) (simp_all add: parseFiles.simps Now_def)
    qed
  qed
qed

lemma parses_reparse:
  assumes "filenames w \<noteq> []"
  shows "\<exists>rest. parses (snd (reparse e s k w)) = parses s @ filenames w # rest"
proof (cases "k = baseKey")
  case True
  then show ?thesis
    using parses_parseBaseFiles [OF assms, of e "checked e s w"] by (simp add: reparse_def parses_checked)
next
  case False
  then show ?thesis
    using parses_parseFiles [OF assms, of e "checked e s w"] by (simp add: reparse_def parses_checked)
qed

lemma parses_get:
  assumes "cache s k = Some w"
  shows "parses (snd (get e s k)) = (if stale e s k w then parses (snd (reparse e s k w)) else parses s)"
proof (cases "reparse e s k w")
  case (Pair res s3)
  then show ?thesis
    by (cases res) (simp_all add: get_Some [OF assms] parses_checked)
qed

lemma fst_get_fresh:
  assumes "cache s k = Some w" and "\<not> stale e s k w"
  shows "get e s k = (Some (template w), checked e s w)"
  using assms by (simp add: get_Some)

lemma checked_eq: "checked e s w = s\<lparr>logged := logged (checked e s w)\<rparr>"
  by (simp add: checked_def getChangeTime_eq getBaseChangeTime_def split: option.splits)

lemma checked_fields:
  "heap (checked e s w) = heap s" "cache (checked e s w) = cache s"
  "ticks (checked e s w) = ticks s"
  by (simp_all add: checked_def getChangeTime_eq getBaseChangeTime_def split: option.splits)

lemma parseBaseFiles_None:
  "fns \<noteq> [] \<Longrightarrow> parse e fns = None \<Longrightarrow> fst (parseBaseFiles e s fns) = Inl ParseError"
  by (cases fns) (simp_all add: parseBaseFiles_def New_def alloc_def ParseFiles_def)

lemma parseFiles_None:
  "fns \<noteq> [] \<Longrightarrow> parse e fns = None \<Longrightarrow> fst (parseFiles e s fns) = Inl ParseError"
  by (cases fns) (simp_all add: parseFiles.simps New_def alloc_def ParseFiles_def)

lemma parseBaseFiles_Some:
  assumes "fns \<noteq> []" and "parse e fns = Some defs"
  shows "parseBaseFiles e s fns =
           (Inr \<lparr>filenames = fns, template = length (heap s), cached = clock e (ticks s)\<rparr>,
            s\<lparr>heap := heap s @ [\<lparr>tname = hd fns, tset = defs\<rparr>],
              parses := parses s @ [fns], ticks := Suc (ticks s)\<rparr>)"
  using assms
  by (cases fns) (simp_all add: parseBaseFiles_def New_def alloc_def ParseFiles_def Now_def)

lemma parseFiles_Some_no_base:
  assumes "fns \<noteq> []" and "parse e fns = Some defs" and "cache s baseKey = None"
  shows "parseFiles e s fns =
           (Inr \<lparr>filenames = fns, template = length (heap s), cached = clock e (ticks s)\<rparr>,
            s\<lparr>heap := heap s @ [\<lparr>tname = hd fns, tset = defs\<rparr>],
              parses := parses s @ [fns], ticks := Suc (ticks s)\<rparr>)"
  using assms
  by (cases fns)
    (simp_all add: parseFiles.simps Get.simps get.simps New_def alloc_def ParseFiles_def Now_def)

lemma reparse_entry:
  "case reparse e s k w of
     (Inl err, s3) \<Rightarrow> True
   | (Inr w', s3) \<Rightarrow>
       length (heap s) \<le> template w' \<and> template w' < length (heap s3)
       \<and> filenames w' = filenames w"
proof (cases "k = baseKey")
  case True
  then show ?thesis
    using grows_parseBaseFiles [where s="checked e s w" and e=e and fns="filenames w"]
    by (auto simp: reparse_def checked_fields split: prod.splits sum.splits)
next
  case False
  then show ?thesis
    using grows_get_Get_parseFiles(3) [where s''="checked e s w" and e''=e and fns="filenames w"]
    by (auto simp: reparse_def checked_fields split: prod.splits sum.splits)
qed


lemma grows_nth: "grows s s' \<Longrightarrow> i < length (heap s) \<Longrightarrow> heap s' ! i = heap s ! i"
  unfolding grows_def by (metis nth_take)

text \<open>
  A successful \<^verbatim>\<open>parseFiles\<close> returns an object that holds every name the engine has
  just parsed, each with the parsed tree unless that tree is empty.
\<close>

lemma parseFiles_content:
  assumes ne: "fns \<noteq> []" and p: "parse e fns = Some defs" and d: "distinct (map fst defs)"
    and r: "parseFiles e s fns = (Inr w', s5)"
    and n: "map_of defs n = Some tr"
  shows "map_of (tset (heap s5 ! template w')) n \<noteq> None
         \<and> (\<not> empty_tree e tr \<longrightarrow> map_of (tset (heap s5 ! template w')) n = Some tr)"
proof -
  obtain f0 rest where fns: "fns = f0 # rest"
    using ne by (cases fns) auto
  define t where "t = length (heap s)"
  define s2 where "s2 = s\<lparr>parses := parses s @ [fns], heap := heap s @ [\<lparr>tname = f0, tset = defs\<rparr>]\<rparr>"
  have t2: "t < length (heap s2)" and c2: "heap s2 ! t = \<lparr>tname = f0, tset = defs\<rparr>"
    by (simp_all add: t_def s2_def)
  obtain rb s3 where g: "Get e s2 baseKey = (rb, s3)"
    by fastforce
  have gr: "grows s2 s3"
    and fr: "\<forall>a. rb = Inr a \<longrightarrow> length (heap s2) \<le> a \<and> a < length (heap s3)"
    using grows_get_Get_parseFiles(2) [where s'=s2 and e'=e and k'=baseKey] g by simp_all
  have c3: "heap s3 ! t = \<lparr>tname = f0, tset = defs\<rparr>"
    using grows_nth [OF gr t2] c2 by simp
  have t3: "t < length (heap s3)"
    using t2 grows_length [OF gr] by simp
  have pf: "parseFiles e s fns =
              (case rb of
                 Inr base \<Rightarrow>
                   (case mergeTemplate e s3 base t of
                      (Inl err, s4) \<Rightarrow> (Inl err, s4)
                    | (Inr nt, s4) \<Rightarrow>
                        (case Now e s4 of
                           (n, s5) \<Rightarrow> (Inr \<lparr>filenames = fns, template = nt, cached = n\<rparr>, s5)))
               | Inl err \<Rightarrow>
                   (case Now e s3 of
                      (n, s5) \<Rightarrow> (Inr \<lparr>filenames = fns, template = t, cached = n\<rparr>, s5)))"
    using p g unfolding fns t_def s2_def
    by (simp add: parseFiles.simps [of e s "f0 # rest"] New_def alloc_def ParseFiles_def
        split: sum.splits)
  show ?thesis
  proof (cases rb)
    case (Inl err)
    then have "template w' = t" "heap s5 = heap s3"
      using r pf by (auto simp: Now_def)
    then show ?thesis using c3 n by simp
  next
    case (Inr base)
    then have b3: "base < length (heap s3)"
      using fr by simp
    obtain rm s4 where m: "mergeTemplate e s3 base t = (rm, s4)"
      by fastforce
    then obtain nt where rm: "rm = Inr nt" and w': "template w' = nt" and h5: "heap s5 = heap s4"
      using r pf Inr by (cases rm) (auto simp: Now_def)
    have d3: "distinct (map fst (tset (heap s3 ! t)))"
      using d by (simp add: c3)
    note mp = mergeTemplate_Inr [OF b3 t3 d3 m [unfolded rm], of n]
    show ?thesis
      using mp n by (simp add: w' h5 c3 split: if_splits)
  qed
qed


lemma parseFiles_total:
  assumes ne: "fns \<noteq> []" and p: "parse e fns = Some defs"
    and c: "\<forall>tm. clone_ok e tm" and a: "\<forall>tm n tr. add_ok e tm n tr"
  shows "\<not> isl (fst (parseFiles e s fns))"
proof -
  obtain f0 rest where fns: "fns = f0 # rest"
    using ne by (cases fns) auto
  obtain rb s3 where g: "Get e (s\<lparr>parses := parses s @ [f0 # rest],
      heap := heap s @ [\<lparr>tname = f0, tset = defs\<rparr>]\<rparr>) baseKey = (rb, s3)"
    by fastforce
  show ?thesis
  proof (cases rb)
    case (Inl err)
    then show ?thesis
      using p g unfolding fns
      by (simp add: parseFiles.simps [of e s "f0 # rest"] New_def alloc_def ParseFiles_def Now_def)
  next
    case (Inr base)
    have "\<not> isl (fst (mergeTemplate e s3 base (length (heap s))))"
      using mergeTemplate_total c a by blast
    then show ?thesis
      using p g Inr unfolding fns
      by (cases "mergeTemplate e s3 base (length (heap s))")
        (auto simp: parseFiles.simps [of e s "f0 # rest"] New_def alloc_def ParseFiles_def Now_def
          split: sum.splits)
  qed
qed

text \<open>
  C1. For a key that is in the cache, the lookup task reparses the entry exactly when
  the entry's \<open>cached\<close> time is before \<^verbatim>\<open>getChangeTime\<close> of its files or, for a key
  other than \<open>baseKey\<close>, before \<^verbatim>\<open>getBaseChangeTime()\<close>; for \<open>baseKey\<close> only the
  entry's own files count.

  When the entry is not stale the engine is not called, the cached template is sent
  and nothing but the log changes. When it is stale, the task is the reparse of the
  entry's file list (\<^verbatim>\<open>parseBaseFiles\<close> for \<open>baseKey\<close>, \<^verbatim>\<open>parseFiles\<close> otherwise) on the
  state the two checks leave, followed by the reply and the Set request:
  \<^item> a template that is sent is a new object, not the cached one, and the last Set
    request stores it under the key with the entry's file list; it holds every name
    the engine has just parsed from the files, each with the parsed tree unless that
    tree is empty;
  \<^item> when nothing is sent, the error has just been logged;
  \<^item> nothing is sent when the engine rejects the files, and a template is sent when
    the engine accepts them and accepts every clone and every add;
  \<^item> for \<open>baseKey\<close>, and for any key while no base is stored, the new object is
    exactly what the engine parsed, under the name of the first file, and the Set
    request carries the time of the clock's next reading.
\<close>

theorem get_reparses_iff_stale:
  assumes "wf_world s" and "cache s k = Some w"
  shows "((\<exists>rest. parses (snd (get e s k)) = parses s @ filenames w # rest) \<longleftrightarrow>
            cached w < fst (getChangeTime e s (filenames w))
            \<or> (k \<noteq> baseKey \<and> cached w < fst (getBaseChangeTime e s)))
         \<and> (k = baseKey \<longrightarrow>
              ((\<exists>rest. parses (snd (get e s k)) = parses s @ filenames w # rest) \<longleftrightarrow>
                 cached w < fst (getChangeTime e s (filenames w))))
         \<and> (\<not> (cached w < fst (getChangeTime e s (filenames w))
                \<or> (k \<noteq> baseKey \<and> cached w < fst (getBaseChangeTime e s))) \<longrightarrow>
              fst (get e s k) = Some (template w)
              \<and> snd (get e s k) = s\<lparr>logged := logged (snd (get e s k))\<rparr>)
         \<and> (cached w < fst (getChangeTime e s (filenames w))
              \<or> (k \<noteq> baseKey \<and> cached w < fst (getBaseChangeTime e s)) \<longrightarrow>
              get e s k =
                (case (if k = baseKey then parseBaseFiles e (checked e s w) (filenames w)
                       else parseFiles e (checked e s w) (filenames w)) of
                   (Inl err, s3) \<Rightarrow> (None, s3\<lparr>logged := logged s3 @ [LogErr err]\<rparr>)
                 | (Inr w', s3) \<Rightarrow>
                     (Some (template w'), s3\<lparr>setChan := setChan s3 @ [(k, w')]\<rparr>))
              \<and> (case fst (get e s k) of
                    None \<Rightarrow> \<exists>l err. logged (snd (get e s k)) = l @ [LogErr err]
                  | Some t \<Rightarrow>
                      t \<noteq> template w \<and> length (heap s) \<le> t \<and> t < length (heap (snd (get e s k)))
                      \<and> (\<exists>q w'. setChan (snd (get e s k)) = q @ [(k, w')]
                            \<and> template w' = t \<and> filenames w' = filenames w)
                      \<and> (parse e (filenames w) = Some defs \<and> distinct (map fst defs)
                           \<and> map_of defs n = Some tr \<longrightarrow>
                           map_of (tset (heap (snd (get e s k)) ! t)) n \<noteq> None
                           \<and> (\<not> empty_tree e tr \<longrightarrow>
                                 map_of (tset (heap (snd (get e s k)) ! t)) n = Some tr)))
              \<and> (parse e (filenames w) = None \<longrightarrow> fst (get e s k) = None)
              \<and> (parse e (filenames w) \<noteq> None \<and> (\<forall>tm. clone_ok e tm) \<and> (\<forall>tm m u. add_ok e tm m u) \<longrightarrow>
                    fst (get e s k) \<noteq> None)
              \<and> (parse e (filenames w) = Some defs \<and> (k = baseKey \<or> cache s baseKey = None) \<longrightarrow>
                    fst (get e s k) = Some (length (heap s))
                    \<and> heap (snd (get e s k)) = heap s @ [\<lparr>tname = hd (filenames w), tset = defs\<rparr>]
                    \<and> setChan (snd (get e s k)) =
                        setChan s @ [(k, \<lparr>filenames = filenames w, template = length (heap s),
                                         cached = clock e (ticks s)\<rparr>)]))"
proof -
  have "w \<in> ran (cache s)" using assms(2) by (auto simp: ran_def)
  then have ne: "filenames w \<noteq> []" and tw: "template w < length (heap s)"
    using assms(1) unfolding wf_world_def by blast+
  note c = assms(2)
  have iff: "(\<exists>rest. parses (snd (get e s k)) = parses s @ filenames w # rest) \<longleftrightarrow> stale e s k w"
  proof (cases "stale e s k w")
    case True
    then show ?thesis
      using parses_reparse [OF ne, of e s k] by (simp add: parses_get [OF c])
  next
    case False
    then show ?thesis by (simp add: parses_get [OF c])
  qed
  have fresh: "fst (get e s k) = Some (template w)
               \<and> snd (get e s k) = s\<lparr>logged := logged (snd (get e s k))\<rparr>"
    if "\<not> stale e s k w"
    using that checked_eq [where e=e and s=s and w=w] by (simp add: fst_get_fresh [OF c])
  have eq: "get e s k =
              (case (if k = baseKey then parseBaseFiles e (checked e s w) (filenames w)
                     else parseFiles e (checked e s w) (filenames w)) of
                 (Inl err, s3) \<Rightarrow> (None, s3\<lparr>logged := logged s3 @ [LogErr err]\<rparr>)
               | (Inr w', s3) \<Rightarrow>
                   (Some (template w'), s3\<lparr>setChan := setChan s3 @ [(k, w')]\<rparr>))"
    if "stale e s k w"
    using that by (simp add: get_Some [OF c] reparse_def)
  have built: "fst (get e s k) = Some (length (heap s))
               \<and> heap (snd (get e s k)) = heap s @ [\<lparr>tname = hd (filenames w), tset = defs\<rparr>]
               \<and> setChan (snd (get e s k)) =
                   setChan s @ [(k, \<lparr>filenames = filenames w, template = length (heap s),
                                    cached = clock e (ticks s)\<rparr>)]"
    if st: "stale e s k w" and p: "parse e (filenames w) = Some defs"
      and nb: "k = baseKey \<or> cache s baseKey = None"
  proof -
    have "reparse e s k w =
           (Inr \<lparr>filenames = filenames w, template = length (heap s), cached = clock e (ticks s)\<rparr>,
            (checked e s w)\<lparr>heap := heap s @ [\<lparr>tname = hd (filenames w), tset = defs\<rparr>],
              parses := parses (checked e s w) @ [filenames w], ticks := Suc (ticks s)\<rparr>)"
    proof (cases "k = baseKey")
      case True
      then show ?thesis
        using parseBaseFiles_Some [OF ne p, where s="checked e s w"]
        by (simp add: reparse_def checked_fields)
    next
      case False
      then have "cache (checked e s w) baseKey = None"
        using nb by (simp add: checked_fields)
      from parseFiles_Some_no_base [OF ne p this] show ?thesis
        using False by (simp add: reparse_def checked_fields)
    qed
    then show ?thesis
      using st by (simp add: get_Some [OF c] setChan_checked)
  qed
  have content: "map_of (tset (heap (snd (get e s k)) ! t)) n \<noteq> None
                 \<and> (\<not> empty_tree e tr \<longrightarrow> map_of (tset (heap (snd (get e s k)) ! t)) n = Some tr)"
    if st: "stale e s k w" and r: "fst (get e s k) = Some t"
      and p: "parse e (filenames w) = Some defs" and d: "distinct (map fst defs)"
      and n: "map_of defs n = Some tr" for t
  proof (cases "k = baseKey")
    case True
    note b = built [OF st p disjI1 [OF True]]
    have "t = length (heap s)"
      using b r by simp
    then have "tset (heap (snd (get e s k)) ! t) = defs"
      using b by simp
    then show ?thesis
      using n by simp
  next
    case False
    obtain res s3 where pf: "parseFiles e (checked e s w) (filenames w) = (res, s3)"
      by fastforce
    then obtain w' where res: "res = Inr w'" and t: "t = template w'"
        and h: "heap (snd (get e s k)) = heap s3"
      using st r False by (cases res) (auto simp: get_Some [OF c] reparse_def)
    from parseFiles_content [OF ne p d pf [unfolded res] n] show ?thesis
      by (simp add: t h)
  qed
  have obs: "case fst (get e s k) of
               None \<Rightarrow> \<exists>l err. logged (snd (get e s k)) = l @ [LogErr err]
             | Some t \<Rightarrow>
                 t \<noteq> template w \<and> length (heap s) \<le> t \<and> t < length (heap (snd (get e s k)))
                 \<and> (\<exists>q w'. setChan (snd (get e s k)) = q @ [(k, w')]
                       \<and> template w' = t \<and> filenames w' = filenames w)
                 \<and> (parse e (filenames w) = Some defs \<and> distinct (map fst defs)
                      \<and> map_of defs n = Some tr \<longrightarrow>
                      map_of (tset (heap (snd (get e s k)) ! t)) n \<noteq> None
                      \<and> (\<not> empty_tree e tr \<longrightarrow>
                            map_of (tset (heap (snd (get e s k)) ! t)) n = Some tr))"
    if st: "stale e s k w"
  proof (cases "fst (get e s k)")
    case None
    obtain res s3 where rp: "reparse e s k w = (res, s3)"
      by fastforce
    then show ?thesis
      using st None by (cases res) (simp_all add: get_Some [OF c])
  next
    case (Some t)
    obtain res s3 where rp: "reparse e s k w = (res, s3)"
      by fastforce
    then obtain w' where res: "res = Inr w'" and t: "t = template w'"
        and g: "snd (get e s k) = s3\<lparr>setChan := setChan s3 @ [(k, w')]\<rparr>"
      using st Some by (cases res) (auto simp: get_Some [OF c])
    have en: "length (heap s) \<le> template w' \<and> template w' < length (heap s3)
          \<and> filenames w' = filenames w"
      using reparse_entry [where e=e and s=s and k=k and w=w] rp res by simp
    have a: "t \<noteq> template w \<and> length (heap s) \<le> t \<and> t < length (heap (snd (get e s k)))
             \<and> (\<exists>q w'. setChan (snd (get e s k)) = q @ [(k, w')]
                   \<and> template w' = t \<and> filenames w' = filenames w)"
      using en tw by (simp add: t g)
    have cn: "parse e (filenames w) = Some defs \<and> distinct (map fst defs)
                \<and> map_of defs n = Some tr \<longrightarrow>
              map_of (tset (heap (snd (get e s k)) ! t)) n \<noteq> None
              \<and> (\<not> empty_tree e tr \<longrightarrow>
                    map_of (tset (heap (snd (get e s k)) ! t)) n = Some tr)"
      using content [OF st Some] by blast
    have all: "t \<noteq> template w \<and> length (heap s) \<le> t \<and> t < length (heap (snd (get e s k)))
             \<and> (\<exists>q w'. setChan (snd (get e s k)) = q @ [(k, w')]
                   \<and> template w' = t \<and> filenames w' = filenames w)
             \<and> (parse e (filenames w) = Some defs \<and> distinct (map fst defs)
                \<and> map_of defs n = Some tr \<longrightarrow>
              map_of (tset (heap (snd (get e s k)) ! t)) n \<noteq> None
              \<and> (\<not> empty_tree e tr \<longrightarrow>
                    map_of (tset (heap (snd (get e s k)) ! t)) n = Some tr))"
      using a cn by (intro conjI) (rule conjunct1, assumption | (erule conjE)+, assumption | assumption)+
    show ?thesis
      unfolding Some option.case by (rule all)
  qed
  have fail: "fst (get e s k) = None" if "stale e s k w" and "parse e (filenames w) = None"
  proof -
    have "fst (reparse e s k w) = Inl ParseError"
      using parseBaseFiles_None [OF ne that(2)] parseFiles_None [OF ne that(2)]
      by (simp add: reparse_def)
    then show ?thesis
      using that(1) by (cases "reparse e s k w") (simp add: get_Some [OF c])
  qed
  have succ: "fst (get e s k) \<noteq> None"
    if st: "stale e s k w" and p: "parse e (filenames w) \<noteq> None"
      and ck: "\<forall>tm. clone_ok e tm" and ak: "\<forall>tm m u. add_ok e tm m u"
  proof -
    obtain ds where ds: "parse e (filenames w) = Some ds"
      using p by blast
    have "\<not> isl (fst (reparse e s k w))"
    proof (cases "k = baseKey")
      case True
      then show ?thesis
        using parseBaseFiles_Some [OF ne ds, where s="checked e s w"] by (simp add: reparse_def)
    next
      case False
      then show ?thesis
        using parseFiles_total [OF ne ds ck ak, of "checked e s w"] by (simp add: reparse_def)
    qed
    then show ?thesis
      using st by (cases "reparse e s k w") (auto simp: get_Some [OF c] split: sum.splits)
  qed
  have c1: "(\<exists>rest. parses (snd (get e s k)) = parses s @ filenames w # rest) \<longleftrightarrow>
            cached w < fst (getChangeTime e s (filenames w))
            \<or> (k \<noteq> baseKey \<and> cached w < fst (getBaseChangeTime e s))"
    using iff unfolding stale_def .
  have c2: "k = baseKey \<longrightarrow>
              ((\<exists>rest. parses (snd (get e s k)) = parses s @ filenames w # rest) \<longleftrightarrow>
                 cached w < fst (getChangeTime e s (filenames w)))"
    using c1 by auto
  have c3: "\<not> (cached w < fst (getChangeTime e s (filenames w))
                \<or> (k \<noteq> baseKey \<and> cached w < fst (getBaseChangeTime e s))) \<longrightarrow>
              fst (get e s k) = Some (template w)
              \<and> snd (get e s k) = s\<lparr>logged := logged (snd (get e s k))\<rparr>"
  proof
    assume "\<not> (cached w < fst (getChangeTime e s (filenames w))
                \<or> (k \<noteq> baseKey \<and> cached w < fst (getBaseChangeTime e s)))"
    then have "\<not> stale e s k w" unfolding stale_def .
    then show "fst (get e s k) = Some (template w)
              \<and> snd (get e s k) = s\<lparr>logged := logged (snd (get e s k))\<rparr>"
      by (rule fresh)
  qed
  show ?thesis
  proof (intro conjI impI)
    assume "cached w < fst (getChangeTime e s (filenames w))
              \<or> (k \<noteq> baseKey \<and> cached w < fst (getBaseChangeTime e s))"
    then have st: "stale e s k w" unfolding stale_def .
    show "get e s k =
                (case (if k = baseKey then parseBaseFiles e (checked e s w) (filenames w)
                       else parseFiles e (checked e s w) (filenames w)) of
                   (Inl err, s3) \<Rightarrow> (None, s3\<lparr>logged := logged s3 @ [LogErr err]\<rparr>)
                 | (Inr w', s3) \<Rightarrow>
                     (Some (template w'), s3\<lparr>setChan := setChan s3 @ [(k, w')]\<rparr>))"
      by (rule eq [OF st])
    show "case fst (get e s k) of
               None \<Rightarrow> \<exists>l err. logged (snd (get e s k)) = l @ [LogErr err]
             | Some t \<Rightarrow>
                 t \<noteq> template w \<and> length (heap s) \<le> t \<and> t < length (heap (snd (get e s k)))
                 \<and> (\<exists>q w'. setChan (snd (get e s k)) = q @ [(k, w')]
                       \<and> template w' = t \<and> filenames w' = filenames w)
                 \<and> (parse e (filenames w) = Some defs \<and> distinct (map fst defs)
                      \<and> map_of defs n = Some tr \<longrightarrow>
                      map_of (tset (heap (snd (get e s k)) ! t)) n \<noteq> None
                      \<and> (\<not> empty_tree e tr \<longrightarrow>
                            map_of (tset (heap (snd (get e s k)) ! t)) n = Some tr))"
      by (rule obs [OF st])
    {
      assume "parse e (filenames w) = None"
      then show "fst (get e s k) = None" by (rule fail [OF st])
    }
    {
      assume "parse e (filenames w) \<noteq> None \<and> (\<forall>tm. clone_ok e tm) \<and> (\<forall>tm m u. add_ok e tm m u)"
      then show "fst (get e s k) \<noteq> None" using succ [OF st] by blast
    }
    {
      assume a: "parse e (filenames w) = Some defs \<and> (k = baseKey \<or> cache s baseKey = None)"
      note b = built [OF st conjunct1 [OF a] conjunct2 [OF a]]
      show "fst (get e s k) = Some (length (heap s))" using b by (rule conjunct1)
      show "heap (snd (get e s k)) = heap s @ [\<lparr>tname = hd (filenames w), tset = defs\<rparr>]"
        using b by blast
      show "setChan (snd (get e s k)) =
                        setChan s @ [(k, \<lparr>filenames = filenames w, template = length (heap s),
                                         cached = clock e (ticks s)\<rparr>)]"
        using b by blast
    }
  qed (use c1 c2 c3 in blast)+
qed


theorem get_reparses_iff_stale_witness:
  "wf_world demo_base_world
   \<and> cache demo_base_world baseKey = Some demo_entry
   \<and> cached demo_entry < fst (getChangeTime demo_touched demo_base_world (filenames demo_entry))
   \<and> (\<exists>rest. parses (snd (get demo_touched demo_base_world baseKey))
                = parses demo_base_world @ filenames demo_entry # rest)
   \<and> fst (get demo_touched demo_base_world baseKey) = Some 1
   \<and> heap (snd (get demo_touched demo_base_world baseKey))
       = heap demo_base_world
         @ [\<lparr>tname = ''base.html'', tset = [(''base.html'', ''Base {{template content}}'')]\<rparr>]
   \<and> setChan (snd (get demo_touched demo_base_world baseKey))
       = [(baseKey, \<lparr>filenames = [''base.html''], template = 1, cached = 5\<rparr>)]
   \<and> \<not> cached demo_entry < fst (getChangeTime demo_env demo_base_world (filenames demo_entry))
   \<and> fst (get demo_env demo_base_world baseKey) = Some (template demo_entry)
   \<and> parses (snd (get demo_env demo_base_world baseKey)) = parses demo_base_world
   \<and> wf_world demo_dep_world
   \<and> cache demo_dep_world filesKey = Some demo_dep_entry
   \<and> \<not> cached demo_dep_entry < fst (getChangeTime demo_touched demo_dep_world (filenames demo_dep_entry))
   \<and> cached demo_dep_entry < fst (getBaseChangeTime demo_touched demo_dep_world)
   \<and> (\<exists>rest. parses (snd (get demo_touched demo_dep_world filesKey))
                = parses demo_dep_world @ filenames demo_dep_entry # rest)
   \<and> fst (get demo_touched demo_dep_world filesKey) \<noteq> None
   \<and> fst (get demo_touched demo_dep_world filesKey) \<noteq> Some (template demo_dep_entry)
   \<and> map_of (tset (heap (snd (get demo_touched demo_dep_world filesKey))
                      ! the (fst (get demo_touched demo_dep_world filesKey)))) ''content''
       = Some ''Test''"
proof -
  have wfb: "wf_world demo_base_world"
    unfolding demo_base_world_def by (intro wf_watcher wf_RegisterBaseFiles wf_init)
  have wfd: "wf_world demo_dep_world"
    unfolding demo_dep_world_def by (intro wf_watcher wf_RegisterFiles wfb)
  have c: "cache demo_base_world baseKey = Some demo_entry"
    by (simp add: demo_base_world_eq)
  have t: "cached demo_entry < fst (getChangeTime demo_touched demo_base_world (filenames demo_entry))"
    by (simp add: getChangeTime_def demo_entry_def)
  have f: "\<not> cached demo_entry < fst (getChangeTime demo_env demo_base_world (filenames demo_entry))"
    by (simp add: getChangeTime_def demo_entry_def)
  have d: "\<not> cached demo_dep_entry < fst (getChangeTime demo_touched demo_dep_world (filenames demo_dep_entry))"
    by (simp add: getChangeTime_def demo_dep_entry_def demo_touched_def)
  have b: "cached demo_dep_entry < fst (getBaseChangeTime demo_touched demo_dep_world)"
    by (simp add: getBaseChangeTime_def getChangeTime_def demo_dep_world_cache demo_entry_def
        demo_dep_entry_def)
  note th1 = get_reparses_iff_stale [where e=demo_touched and s=demo_base_world and k=baseKey
      and w=demo_entry and defs="[(''base.html'', ''Base {{template content}}'')]"
      and n="''base.html''" and tr="''Base {{template content}}''", OF wfb c]
  note th2 = get_reparses_iff_stale [where e=demo_env and s=demo_base_world and k=baseKey
      and w=demo_entry and defs="[]" and n="[]" and tr="[]", OF wfb c]
  note th3 = get_reparses_iff_stale [where e=demo_touched and s=demo_dep_world and k=filesKey
      and w=demo_dep_entry and defs="[(''test.html'', []), (''content'', ''Test'')]"
      and n="''content''" and tr="''Test''", OF wfd demo_dep_world_cache(2)]
  have r1: "\<exists>rest. parses (snd (get demo_touched demo_base_world baseKey))
                = parses demo_base_world @ filenames demo_entry # rest"
    using th1 [THEN conjunct1] t by blast
  note big1 = th1 [THEN conjunct2, THEN conjunct2, THEN conjunct2, THEN mp, OF disjI1 [OF t]]
  have p1: "parse demo_touched (filenames demo_entry) = Some [(''base.html'', ''Base {{template content}}'')]
            \<and> (baseKey = baseKey \<or> cache demo_base_world baseKey = None)"
    by (simp add: demo_entry_def)
  note b1 = big1 [THEN conjunct2, THEN conjunct2, THEN conjunct2, THEN conjunct2, THEN mp, OF p1]
  have r1a: "fst (get demo_touched demo_base_world baseKey) = Some 1"
    using b1 [THEN conjunct1] by (simp add: demo_base_world_eq)
  have r1b: "heap (snd (get demo_touched demo_base_world baseKey))
       = heap demo_base_world
         @ [\<lparr>tname = ''base.html'', tset = [(''base.html'', ''Base {{template content}}'')]\<rparr>]"
    using b1 [THEN conjunct2, THEN conjunct1] by (simp add: demo_entry_def)
  have r1c: "setChan (snd (get demo_touched demo_base_world baseKey))
       = [(baseKey, \<lparr>filenames = [''base.html''], template = 1, cached = 5\<rparr>)]"
    using b1 [THEN conjunct2, THEN conjunct2] by (simp add: demo_base_world_eq demo_entry_def)
  have nst: "\<not> (cached demo_entry < fst (getChangeTime demo_env demo_base_world (filenames demo_entry))
                \<or> (baseKey \<noteq> baseKey \<and> cached demo_entry < fst (getBaseChangeTime demo_env demo_base_world)))"
    using f by simp
  note fr2 = th2 [THEN conjunct2, THEN conjunct2, THEN conjunct1, THEN mp, OF nst]
  have r2a: "fst (get demo_env demo_base_world baseKey) = Some (template demo_entry)"
    using fr2 by (rule conjunct1)
  have r2b: "parses (snd (get demo_env demo_base_world baseKey)) = parses demo_base_world"
    using arg_cong [OF fr2 [THEN conjunct2], of parses] by simp
  have st3: "cached demo_dep_entry < fst (getChangeTime demo_touched demo_dep_world (filenames demo_dep_entry))
             \<or> (filesKey \<noteq> baseKey \<and> cached demo_dep_entry < fst (getBaseChangeTime demo_touched demo_dep_world))"
    using b by simp
  have r3: "\<exists>rest. parses (snd (get demo_touched demo_dep_world filesKey))
                = parses demo_dep_world @ filenames demo_dep_entry # rest"
    using th3 [THEN conjunct1] st3 by blast
  note big3 = th3 [THEN conjunct2, THEN conjunct2, THEN conjunct2, THEN mp, OF st3]
  have ok3: "parse demo_touched (filenames demo_dep_entry) \<noteq> None
             \<and> (\<forall>tm. clone_ok demo_touched tm) \<and> (\<forall>tm m u. add_ok demo_touched tm m u)"
    by (simp add: demo_dep_entry_def demo_touched_def demo_env_def)
  have r3a: "fst (get demo_touched demo_dep_world filesKey) \<noteq> None"
    using big3 [THEN conjunct2, THEN conjunct2, THEN conjunct2, THEN conjunct1, THEN mp, OF ok3] .
  then obtain a where a: "fst (get demo_touched demo_dep_world filesKey) = Some a"
    by blast
  note o3 = big3 [THEN conjunct2, THEN conjunct1, unfolded a option.case]
  have r3b: "fst (get demo_touched demo_dep_world filesKey) \<noteq> Some (template demo_dep_entry)"
    using o3 [THEN conjunct1] by (simp add: a)
  have p3: "parse demo_touched (filenames demo_dep_entry) = Some [(''test.html'', []), (''content'', ''Test'')]
            \<and> distinct (map fst [(''test.html'', []), (''content'', ''Test'')])
            \<and> map_of [(''test.html'', []), (''content'', ''Test'')] ''content'' = Some ''Test''"
    by (simp add: demo_dep_entry_def)
  note cn3 = o3 [THEN conjunct2, THEN conjunct2, THEN conjunct2, THEN conjunct2, THEN mp, OF p3]
  have ne3: "\<not> empty_tree demo_touched ''Test''"
    by (simp add: demo_touched_def demo_env_def)
  have r3c: "map_of (tset (heap (snd (get demo_touched demo_dep_world filesKey))
                      ! the (fst (get demo_touched demo_dep_world filesKey)))) ''content''
       = Some ''Test''"
    using cn3 [THEN conjunct2, THEN mp, OF ne3] by (simp add: a)
  show ?thesis
    by (intro conjI wfb c t r1 r1a r1b r1c f r2a r2b wfd demo_dep_world_cache(2) d b r3 r3a r3b r3c)
qed

lemma Clone_not_NotFound: "fst (Clone e s t) \<noteq> Inl NotFoundError"
  by (simp add: Clone_def alloc_def)

lemma Clone_setChan: "setChan (snd (Clone e s t)) = setChan s"
  by (simp add: Clone_def alloc_def)

lemma Clone_cache: "cache (snd (Clone e s t)) = cache s"
  by (simp add: Clone_def alloc_def)

lemma Clone_logged: "logged (snd (Clone e s t)) = logged s"
  by (simp add: Clone_def alloc_def)

lemma mergeLoop_setChan: "setChan (snd (mergeLoop e s nt subs)) = setChan s"
proof (induction subs arbitrary: s)
  case Nil
  show ?case by simp
next
  case (Cons sub subs)
  show ?case
  proof (cases "AddParseTree e s nt (fst sub) (snd sub)")
    case (Pair r s1)
    have "setChan s1 = setChan s"
      using Pair by (auto simp: AddParseTree_def split: if_splits)
    then show ?thesis using Pair Cons.IH [of s1] by (cases r) simp_all
  qed
qed

lemma mergeTemplate_setChan: "setChan (snd (mergeTemplate e s base t)) = setChan s"
proof (cases "Clone e s base")
  case (Pair r s1)
  have c1: "setChan s1 = setChan s" using Clone_setChan [of e s base] Pair by simp
  show ?thesis
  proof (cases r)
    case (Inl err)
    then show ?thesis using Pair c1 by (simp add: mergeTemplate_def)
  next
    case (Inr nt)
    obtain rm s2 where m: "mergeLoop e s1 nt (Templates s1 t) = (rm, s2)" by fastforce
    have "setChan s2 = setChan s1"
      using mergeLoop_setChan [of e s1 nt "Templates s1 t"] m by simp
    then show ?thesis
      using Pair Inr m c1 by (cases rm) (simp_all add: mergeTemplate_def)
  qed
qed

lemma mergeTemplate_Inl:
  "mergeTemplate e s base t = (Inl err, s') \<Longrightarrow> err = CloneError \<or> err = AddError"
  by (auto simp: mergeTemplate_def Clone_def split: prod.splits sum.splits if_splits
      dest: mergeLoop_Inl)

lemma setChan_parseBaseFiles: "setChan (snd (parseBaseFiles e s fns)) = setChan s"
  by (cases fns)
    (auto simp: parseBaseFiles_def New_def alloc_def ParseFiles_def Now_def Let_def
      split: option.splits)

lemma parseBaseFiles_Inl:
  "parseBaseFiles e s fns = (Inl err, s') \<Longrightarrow> fns \<noteq> [] \<Longrightarrow> err = ParseError"
  by (cases fns)
    (auto simp: parseBaseFiles_def New_def alloc_def ParseFiles_def Now_def Let_def
      split: option.splits)

text \<open>The requests a lookup of the base key sends are for the base key.\<close>

lemma setChan_get_base:
  "\<exists>q. setChan (snd (get e s baseKey)) = setChan s @ q \<and> (\<forall>r \<in> set q. fst r = baseKey)"
proof (cases "cache s baseKey")
  case None
  then show ?thesis by (simp add: get.simps)
next
  case (Some w)
  obtain res s3 where rp: "reparse e s baseKey w = (res, s3)" by fastforce
  have s3: "setChan s3 = setChan s"
    using rp setChan_parseBaseFiles [of e "checked e s w" "filenames w"]
    by (simp add: reparse_def setChan_checked)
  show ?thesis
    using rp s3 by (cases res) (simp_all add: get_Some [OF Some] setChan_checked)
qed

lemma setChan_Get_base:
  "\<exists>q. setChan (snd (Get e s baseKey)) = setChan s @ q \<and> (\<forall>r \<in> set q. fst r = baseKey)"
proof (cases "get e s baseKey")
  case (Pair r s1)
  then show ?thesis
    using setChan_get_base [of e s] by (cases r) (simp_all add: Get.simps Clone_setChan)
qed

lemma setChan_parseFiles:
  "\<exists>q. setChan (snd (parseFiles e s fns)) = setChan s @ q \<and> (\<forall>r \<in> set q. fst r = baseKey)"
proof (cases fns)
  case Nil
  then show ?thesis by (simp add: parseFiles.simps)
next
  case (Cons f0 tl)
  define s1 where "s1 = s\<lparr>heap := heap s @ [\<lparr>tname = f0, tset = []\<rparr>]\<rparr>"
  have n: "New f0 s = (length (heap s), s1)"
    by (simp add: New_def alloc_def s1_def)
  obtain r s2 where p: "ParseFiles e s1 (length (heap s)) fns = (r, s2)"
    by fastforce
  have c2: "setChan s2 = setChan s"
    using p by (auto simp: ParseFiles_def Let_def s1_def split: option.splits)
  show ?thesis
  proof (cases r)
    case (Inl err)
    then show ?thesis using Cons n p c2 by (simp add: parseFiles.simps)
  next
    case (Inr u)
    obtain rb s3 where gb: "Get e s2 baseKey = (rb, s3)" by fastforce
    obtain q where q: "setChan s3 = setChan s @ q" "\<forall>r \<in> set q. fst r = baseKey"
      using setChan_Get_base [of e s2] gb c2 by auto
    show ?thesis
    proof (cases rb)
      case (Inl err)
      then show ?thesis
        using Cons n p Inr gb q by (simp add: parseFiles.simps Now_def)
    next
      case base: (Inr base)
      obtain rm s4 where m: "mergeTemplate e s3 base (length (heap s)) = (rm, s4)" by fastforce
      have "setChan s4 = setChan s3"
        using mergeTemplate_setChan [of e s3 base "length (heap s)"] m by simp
      then show ?thesis
        using Cons n p Inr gb base m q by (cases rm) (simp_all add: parseFiles.simps Now_def)
    qed
  qed
qed

lemma parseFiles_Inl:
  assumes "parseFiles e s fns = (Inl err, s')" and "fns \<noteq> []"
  shows "err = ParseError \<or> err = CloneError \<or> err = AddError"
proof -
  obtain f0 tl where fns: "fns = f0 # tl"
    using assms(2) by (cases fns) auto
  define s1 where "s1 = s\<lparr>heap := heap s @ [\<lparr>tname = f0, tset = []\<rparr>]\<rparr>"
  have n: "New f0 s = (length (heap s), s1)"
    by (simp add: New_def alloc_def s1_def)
  obtain r s2 where p: "ParseFiles e s1 (length (heap s)) fns = (r, s2)"
    by fastforce
  show ?thesis
  proof (cases r)
    case (Inl err')
    have "err' = ParseError"
      using p Inl by (auto simp: ParseFiles_def Let_def split: option.splits)
    then show ?thesis using fns n p Inl assms(1) by (simp add: parseFiles.simps)
  next
    case (Inr u)
    obtain rb s3 where gb: "Get e s2 baseKey = (rb, s3)" by fastforce
    show ?thesis
    proof (cases rb)
      case (Inl err')
      then show ?thesis
        using fns n p Inr gb assms(1) by (simp add: parseFiles.simps Now_def)
    next
      case base: (Inr base)
      obtain rm s4 where m: "mergeTemplate e s3 base (length (heap s)) = (rm, s4)" by fastforce
      show ?thesis
        using fns n p Inr gb base m assms(1) mergeTemplate_Inl [of e s3 base "length (heap s)"]
        by (cases rm) (auto simp: parseFiles.simps Now_def)
    qed
  qed
qed

text \<open>What the \<^verbatim>\<open>watcher\<close> loop leaves in a slot depends on the requests for that slot only.\<close>

lemma cache_applySets_append:
  assumes "\<forall>r \<in> set q. fst r \<noteq> k"
  shows "cache (applySets (rs @ q) s) k = cache (applySets rs s) k"
proof -
  have skip: "cache (applySets q s') k = cache s' k" for s'
    using assms by (induction q arbitrary: s') (auto simp: set_cache_def)
  have app: "applySets (rs @ q) s' = applySets q (applySets rs s')" for s'
    by (induction rs arbitrary: s') simp_all
  show ?thesis by (simp add: app skip)
qed

lemma cache_applySets_cong:
  "cache s1 = cache s2 \<Longrightarrow> cache (applySets rs s1) = cache (applySets rs s2)"
  by (induction rs arbitrary: s1 s2) (simp_all add: set_cache_def)

lemma cache_watcher_append:
  assumes "cache s' = cache s" and "setChan s' = setChan s @ q" and "\<forall>r \<in> set q. fst r \<noteq> k"
  shows "cache (watcher s') k = cache (watcher s) k"
proof -
  have "cache (watcher s') k = cache (applySets (setChan s) (s'\<lparr>setChan := []\<rparr>)) k"
    using cache_applySets_append [OF assms(3)] by (simp add: watcher_def assms(2))
  also have "\<dots> = cache (watcher s) k"
    using cache_applySets_cong [of "s'\<lparr>setChan := []\<rparr>" "s\<lparr>setChan := []\<rparr>" "setChan s"] assms(1)
    by (simp add: watcher_def)
  finally show ?thesis .
qed

lemma reparse_failure:
  assumes wf: "wf_world s" and c: "cache s k = Some w" and st: "stale e s k w"
    and rp: "reparse e s k w = (Inl err, s3)"
  shows "err = ParseError \<or> err = CloneError \<or> err = AddError"
    and "Get e s k = (Inl NotFoundError, s3\<lparr>logged := logged s3 @ [LogErr err]\<rparr>)"
    and "cache s3 = cache s"
    and "\<exists>q. setChan s3 = setChan s @ q \<and> (\<forall>r \<in> set q. fst r \<noteq> k)"
proof -
  have "w \<in> ran (cache s)" using c by (auto simp: ran_def)
  then have ne: "filenames w \<noteq> []" using wf unfolding wf_world_def by blast
  show "err = ParseError \<or> err = CloneError \<or> err = AddError"
  proof (cases "k = baseKey")
    case True
    then show ?thesis
      using rp parseBaseFiles_Inl [OF _ ne, of e "checked e s w" err s3] by (simp add: reparse_def)
  next
    case False
    then show ?thesis
      using rp parseFiles_Inl [OF _ ne, of e "checked e s w" err s3] by (simp add: reparse_def)
  qed
  have g: "get e s k = (None, s3\<lparr>logged := logged s3 @ [LogErr err]\<rparr>)"
    using st rp by (simp add: get_Some [OF c])
  then show G: "Get e s k = (Inl NotFoundError, s3\<lparr>logged := logged s3 @ [LogErr err]\<rparr>)"
    by (simp add: Get.simps)
  show "cache s3 = cache s"
    using grows_cache [OF conjunct1 [OF grows_get_Get_parseFiles(2) [of s e k]]] G by simp
  show "\<exists>q. setChan s3 = setChan s @ q \<and> (\<forall>r \<in> set q. fst r \<noteq> k)"
  proof (cases "k = baseKey")
    case True
    then have "setChan s3 = setChan s"
      using rp setChan_parseBaseFiles [of e "checked e s w" "filenames w"]
      by (simp add: reparse_def setChan_checked)
    then show ?thesis by simp
  next
    case False
    then obtain q where "setChan s3 = setChan s @ q" "\<forall>r \<in> set q. fst r = baseKey"
      using rp setChan_parseFiles [of e "checked e s w" "filenames w"]
      by (auto simp: reparse_def setChan_checked)
    then show ?thesis using False by auto
  qed
qed

text \<open>
  C7. In a well-formed state \<^verbatim>\<open>Get\<close> returns the not-found error exactly when the key
  is not in the cache or the lookup found the entry stale and its reparse failed. In
  the second case the reparse error (the engine's parse, clone or add error) is
  logged and is not what the caller receives, the cache is untouched, no Set request
  for the key has been sent, and so the entry is still in its slot after the
  \<^verbatim>\<open>watcher\<close> loop has run.
\<close>

theorem Get_NotFound_iff:
  assumes "wf_world s"
  shows "(fst (Get e s k) = Inl NotFoundError \<longleftrightarrow>
            cache s k = None
            \<or> (\<exists>w. cache s k = Some w \<and> stale e s k w \<and> isl (fst (reparse e s k w))))
         \<and> (\<forall>w err. cache s k = Some w \<and> stale e s k w \<and> fst (reparse e s k w) = Inl err \<longrightarrow>
               (err = ParseError \<or> err = CloneError \<or> err = AddError)
               \<and> fst (Get e s k) = Inl NotFoundError
               \<and> logged (snd (Get e s k)) = logged (snd (reparse e s k w)) @ [LogErr err]
               \<and> cache (snd (Get e s k)) = cache s
               \<and> (\<forall>r \<in> set (drop (length (setChan s)) (setChan (snd (Get e s k)))). fst r \<noteq> k)
               \<and> cache (watcher (snd (Get e s k))) k = cache (watcher s) k)"
proof (intro conjI allI impI)
  show "fst (Get e s k) = Inl NotFoundError \<longleftrightarrow>
          cache s k = None
          \<or> (\<exists>w. cache s k = Some w \<and> stale e s k w \<and> isl (fst (reparse e s k w)))"
  proof (cases "cache s k")
    case None
    then show ?thesis by (simp add: Get.simps get.simps)
  next
    case (Some w)
    obtain res s3 where rp: "reparse e s k w = (res, s3)" by fastforce
    show ?thesis
    proof (cases "stale e s k w")
      case False
      then show ?thesis
        using Some Clone_not_NotFound [of e "checked e s w" "template w"]
        by (simp add: Get.simps get_Some [OF Some])
    next
      case True
      show ?thesis
      proof (cases res)
        case (Inl err)
        then show ?thesis using Some True rp by (simp add: Get.simps get_Some [OF Some])
      next
        case (Inr w')
        then show ?thesis
          using Some True rp Clone_not_NotFound [of e "s3\<lparr>setChan := setChan s3 @ [(k, w')]\<rparr>" "template w'"]
          by (simp add: Get.simps get_Some [OF Some])
      qed
    qed
  qed
next
  fix w err
  assume a: "cache s k = Some w \<and> stale e s k w \<and> fst (reparse e s k w) = Inl err"
  obtain s3 where rp: "reparse e s k w = (Inl err, s3)"
    using a by (cases "reparse e s k w") auto
  note f = reparse_failure [OF assms conjunct1 [OF a] conjunct1 [OF conjunct2 [OF a]] rp]
  obtain q where q: "setChan s3 = setChan s @ q" "\<forall>r \<in> set q. fst r \<noteq> k"
    using f(4) by blast
  show "err = ParseError \<or> err = CloneError \<or> err = AddError" by (rule f(1))
  show "fst (Get e s k) = Inl NotFoundError" by (simp add: f(2))
  show "logged (snd (Get e s k)) = logged (snd (reparse e s k w)) @ [LogErr err]"
    by (simp add: f(2) rp)
  show "cache (snd (Get e s k)) = cache s" by (simp add: f(2) f(3))
  show "\<forall>r \<in> set (drop (length (setChan s)) (setChan (snd (Get e s k)))). fst r \<noteq> k"
    using q by (simp add: f(2))
  show "cache (watcher (snd (Get e s k))) k = cache (watcher s) k"
    by (rule cache_watcher_append [OF _ _ q(2)]) (simp_all add: f(2) f(3) q(1))
qed

theorem Get_NotFound_iff_witness:
  "wf_world demo_base_world
   \<and> cache demo_base_world baseKey = Some demo_entry
   \<and> stale demo_broken demo_base_world baseKey demo_entry
   \<and> fst (reparse demo_broken demo_base_world baseKey demo_entry) = Inl ParseError
   \<and> fst (Get demo_broken demo_base_world baseKey) = Inl NotFoundError
   \<and> logged (snd (Get demo_broken demo_base_world baseKey)) = [LogErr ParseError]
   \<and> cache (watcher (snd (Get demo_broken demo_base_world baseKey))) baseKey = Some demo_entry
   \<and> cache demo_base_world filesKey = None
   \<and> fst (Get demo_env demo_base_world filesKey) = Inl NotFoundError
   \<and> fst (Get demo_env demo_base_world baseKey) \<noteq> Inl NotFoundError"
proof -
  have wf: "wf_world demo_base_world"
    unfolding demo_base_world_def by (intro wf_watcher wf_RegisterBaseFiles wf_init)
  have c: "cache demo_base_world baseKey = Some demo_entry"
    by (simp add: demo_base_world_eq)
  have st: "stale demo_broken demo_base_world baseKey demo_entry"
    by (simp add: stale_def getChangeTime_def demo_entry_def)
  have rp: "fst (reparse demo_broken demo_base_world baseKey demo_entry) = Inl ParseError"
    by (simp add: reparse_def parseBaseFiles_def demo_entry_def New_def alloc_def ParseFiles_def)
  have lg: "logged (snd (reparse demo_broken demo_base_world baseKey demo_entry)) = []"
    by (simp add: reparse_def parseBaseFiles_def demo_entry_def New_def alloc_def ParseFiles_def
        checked_def getChangeTime_def getBaseChangeTime_def demo_base_world_eq)
  have cw: "cache (watcher demo_base_world) baseKey = Some demo_entry"
    by (simp add: demo_base_world_eq watcher_def)
  have n: "cache demo_base_world filesKey = None"
    by (simp add: demo_base_world_eq)
  have ns: "\<not> stale demo_env demo_base_world baseKey demo_entry"
    by (simp add: stale_def getChangeTime_def demo_entry_def)
  note a = Get_NotFound_iff [OF wf, of demo_broken baseKey]
  note b = Get_NotFound_iff [OF wf, of demo_env filesKey]
  note d = Get_NotFound_iff [OF wf, of demo_env baseKey]
  have a1: "fst (Get demo_broken demo_base_world baseKey) = Inl NotFoundError"
    "logged (snd (Get demo_broken demo_base_world baseKey)) = [LogErr ParseError]"
    "cache (watcher (snd (Get demo_broken demo_base_world baseKey))) baseKey = Some demo_entry"
    using a c st rp lg cw by auto
  have b1: "fst (Get demo_env demo_base_world filesKey) = Inl NotFoundError"
    using b n by simp
  have d1: "fst (Get demo_env demo_base_world baseKey) \<noteq> Inl NotFoundError"
    using d c ns by simp
  show ?thesis
    by (intro conjI wf c st rp a1 n b1 d1)
qed

section \<open>The order of registration\<close>

text \<open>
  An entry cached no later than the base entry is found stale by its next lookup,
  unless the base's files were last modified at the very instant the base was
  cached: then \<^verbatim>\<open>getBaseChangeTime\<close> returns that instant without the nudge.
\<close>

theorem base_change_forces_reparse:
  assumes "cache s baseKey = Some b" and "cache s k = Some w" and "k \<noteq> baseKey"
    and "cached w \<le> cached b"
    and "fst (getChangeTime e s (filenames b)) \<noteq> cached b"
  shows "stale e s k w"
  using assms by (auto simp: stale_def getBaseChangeTime_value)

theorem base_change_forces_reparse_witness:
  "cache demo_dep_world baseKey = Some demo_entry
   \<and> cache demo_dep_world filesKey = Some demo_dep_entry
   \<and> cached demo_dep_entry \<le> cached demo_entry
   \<and> fst (getChangeTime demo_touched demo_dep_world (filenames demo_entry)) = 9
   \<and> cached demo_entry = 5
   \<and> stale demo_touched demo_dep_world filesKey demo_dep_entry"
proof -
  have le: "cached demo_dep_entry \<le> cached demo_entry"
    by (simp add: demo_entry_def demo_dep_entry_def)
  have m: "fst (getChangeTime demo_touched demo_dep_world (filenames demo_entry)) = 9"
    "cached demo_entry = 5"
    by (simp_all add: getChangeTime_def demo_entry_def)
  have ne: "fst (getChangeTime demo_touched demo_dep_world (filenames demo_entry)) \<noteq> cached demo_entry"
    by (simp add: m)
  note th = base_change_forces_reparse [OF demo_dep_world_cache(1,2) key_ne(1) le ne]
  show ?thesis
    by (intro conjI demo_dep_world_cache le m th)
qed

text \<open>
  C5. The two registration orders on the files of the tests. On a clock that reads,
  at both registrations, the instant \<^verbatim>\<open>base.html\<close> was last written: with the base
  registered first \<^verbatim>\<open>Get\<close> returns the merged bundle (it has \<^verbatim>\<open>base.html\<close>); with
  the dependent registered first \<^verbatim>\<open>Get\<close> finds the dependent not stale and returns
  it without the base. On a clock that reads a later instant the two orders agree.
\<close>

theorem registration_order_same_instant:
  "reply (base_first demo_env) =
     Inr \<lparr>tname = ''base.html'',
          tset = [(''base.html'', ''Base {{template content}}''), (''test.html'', []), (''content'', ''Test'')]\<rparr>
   \<and> reply (base_last demo_env) =
     Inr \<lparr>tname = ''test.html'', tset = [(''test.html'', []), (''content'', ''Test'')]\<rparr>
   \<and> reply (base_first demo_env) \<noteq> reply (base_last demo_env)
   \<and> reply (base_first demo_later) = reply (base_last demo_later)"
proof -
  have a: "reply (base_first demo_env) =
     Inr \<lparr>tname = ''base.html'',
          tset = [(''base.html'', ''Base {{template content}}''), (''test.html'', []), (''content'', ''Test'')]\<rparr>"
    unfolding base_first_def Let_def
    by (simp add: init_world_def model_defs reply_def)
  have b: "reply (base_last demo_env) =
     Inr \<lparr>tname = ''test.html'', tset = [(''test.html'', []), (''content'', ''Test'')]\<rparr>"
    unfolding base_last_def Let_def
    by (simp add: init_world_def model_defs reply_def)
  have c: "reply (base_first demo_later) =
     Inr \<lparr>tname = ''base.html'',
          tset = [(''base.html'', ''Base {{template content}}''), (''test.html'', []), (''content'', ''Test'')]\<rparr>"
    unfolding base_first_def Let_def
    by (simp add: init_world_def model_defs reply_def)
  have d: "reply (base_last demo_later) =
     Inr \<lparr>tname = ''base.html'',
          tset = [(''base.html'', ''Base {{template content}}''), (''test.html'', []), (''content'', ''Test'')]\<rparr>"
    unfolding base_last_def Let_def
    by (simp add: init_world_def model_defs reply_def)
  show ?thesis
    by (simp add: a b c d)
qed

section \<open>The public API: properties\<close>

text \<open>
  C8. When the pattern matches no file, \<^verbatim>\<open>RegisterGlob\<close> returns the no-match
  error and leaves the whole state as it was: nothing is handed to the engine, no
  Set request is sent, and every later \<^verbatim>\<open>Get\<close> answers as if the call had not been
  made.
\<close>

theorem RegisterGlob_no_match:
  assumes "glob e pattern = Inr []"
  shows "RegisterGlob e s k pattern = (Some NoMatchError, s)
         \<and> parses (snd (RegisterGlob e s k pattern)) = parses s
         \<and> setChan (snd (RegisterGlob e s k pattern)) = setChan s
         \<and> cache (snd (RegisterGlob e s k pattern)) = cache s
         \<and> Get e' (watcher (snd (RegisterGlob e s k pattern))) k' = Get e' (watcher s) k'"
  using assms by (simp add: RegisterGlob_def parseGlob_def)

theorem RegisterGlob_no_match_witness:
  "glob demo_env ''*.txt'' = Inr []
   \<and> RegisterGlob demo_env init_world filesKey ''*.txt'' = (Some NoMatchError, init_world)"
proof -
  have g: "glob demo_env ''*.txt'' = Inr []"
    by (simp add: demo_env_def)
  show ?thesis
    using RegisterGlob_no_match [OF g, of init_world filesKey] g by simp
qed

text \<open>
  C9. \<^verbatim>\<open>RegisterFiles\<close> called with no file name reaches \<^verbatim>\<open>filenames[0]\<close> in
  \<^verbatim>\<open>parseFiles\<close> and panics: no error value is returned.
\<close>

theorem RegisterFiles_empty_panics:
  "RegisterFiles e s k [] = (Some PanicIndexOutOfRange, s) \<and> is_panic PanicIndexOutOfRange"
  by (simp add: RegisterFiles_def is_panic_def parseFiles.simps)



end
